theory Spec2Isabelle
  imports Main "HOL-Library.Sublist" "HOL-Library.Multiset"
begin

section \<open>Values that cross the store's interface\<close>

text \<open>
  A value handed to \<^verbatim>\<open>dispatch\<close>. A plain object carries its \<^verbatim>\<open>type\<close> field
  (\<open>None\<close> when the field is missing or \<^verbatim>\<open>undefined\<close>) and its other own fields in
  order. The remaining constructors are the values \<^verbatim>\<open>isPlainObject\<close> rejects.
\<close>

datatype 'p jsval =
    PlainObject (atype: "string option") (fields: "(string \<times> 'p) list")
  | FunctionValue
  | ClassInstance
  | ArrayValue
  | Primitive
  | NullValue

text \<open>
  Modelled from the spec: \<^verbatim>\<open>utils/isPlainObject\<close> is imported by createStore.ts and is
  not among the sources. The spec: an action "must be a plain structured record (not a
  function, class instance, array, or primitive)".
\<close>

fun isPlainObject :: "'p jsval \<Rightarrow> bool" where
  "isPlainObject (PlainObject t fs) = True"
| "isPlainObject v = False"

text \<open>
  An argument slot of a JavaScript call, as far as \<^verbatim>\<open>typeof\<close> tells its contents apart:
  \<^verbatim>\<open>undefined\<close>, a function, or any other value.
\<close>

datatype ('v, 'f) arg = Undefined | Function 'f | Value 'v

fun is_function :: "('v, 'f) arg \<Rightarrow> bool" where
  "is_function (Function f) = True"
| "is_function a = False"

fun is_undefined :: "('v, 'f) arg \<Rightarrow> bool" where
  "is_undefined Undefined = True"
| "is_undefined a = False"

text \<open>
  The error kinds of the spec's taxonomy (the source throws \<^verbatim>\<open>Error\<close> objects that differ
  in their message only). \<open>Thrown\<close> is an exception raised by user code (a reducer or a
  listener); \<open>StackExhausted\<close> is the host's answer to unbounded recursion.
\<close>

datatype error =
    InvalidArgument
  | AmbiguousEnhancer
  | InvalidActionShape
  | MissingActionType
  | ReentrantDispatch
  | IllegalReentrantRead
  | ReentrantSubscribe
  | ReentrantUnsubscribe
  | PrematureDispatch
  | Thrown string
  | StackExhausted

section \<open>Callbacks\<close>

text \<open>
  Reducers and listeners are user code that may call back into the store. A callback's
  effect on the store is the sequence of store calls it makes; an error raised by one of
  them is not caught by the callback and ends it. A listener is a function object: \<open>lid\<close>
  stands for its identity (two function objects with the same code differ in \<open>lid\<close>), \<open>body\<close>
  is what it does when called. \<open>CallUnsubscribe k\<close> calls the function returned by the
  \<open>k\<close>-th call of \<^verbatim>\<open>subscribe\<close> on this store.
\<close>

datatype 'p cmd =
    CallDispatch "'p jsval"
  | CallGetState
  | CallSubscribe "'p listener"
  | CallUnsubscribe nat
  | ThrowError string
and 'p listener = Listener (lid: nat) (body: "'p cmd list")

text \<open>
  What one invocation of a reducer does: the store calls it makes, then either an exception
  of its own (\<open>Inl\<close>) or the next state (\<open>Inr\<close>). A pure reducer makes no calls.
\<close>

datatype ('s, 'p) outcome = Outcome (calls: "'p cmd list") (final: "string + 's")

type_synonym ('s, 'p) reducer = "'s option \<Rightarrow> 'p jsval \<Rightarrow> ('s, 'p) outcome"

section \<open>The store's private cells\<close>

text \<open>
  The variables closed over by the functions of \<^verbatim>\<open>createStore\<close>. Listener arrays are
  objects on a heap (\<open>arrays\<close>, indexed by address), because \<^verbatim>\<open>currentListeners\<close> and
  \<^verbatim>\<open>nextListeners\<close> may refer to the same array. \<open>subscriptions\<close> holds, for each call of
  \<^verbatim>\<open>subscribe\<close> so far, the listener and the \<^verbatim>\<open>isSubscribed\<close> flag of the closure it
  returned. \<open>invoked\<close> is not a variable of the source: it records every listener call the
  notification loop makes, in order.
\<close>

record ('s, 'p) cells =
  currentReducer :: "('s, 'p) reducer"
  currentState :: "'s option"
  currentListeners :: "nat option"
  nextListeners :: nat
  isDispatching :: bool
  arrays :: "'p listener list list"
  subscriptions :: "('p listener \<times> bool) list"
  invoked :: "'p listener list"

type_synonym ('s, 'p, 'r) call = "('s, 'p) cells \<Rightarrow> (error + 'r) \<times> ('s, 'p) cells"

section \<open>Array primitives\<close>

text \<open>\<^verbatim>\<open>Array.prototype.indexOf\<close>: the first index holding the element, or \<open>-1\<close>.\<close>

fun indexOf :: "'a list \<Rightarrow> 'a \<Rightarrow> int" where
  "indexOf [] x = - 1"
| "indexOf (y # ys) x =
     (if y = x then 0 else (let r = indexOf ys x in if r < 0 then - 1 else r + 1))"

text \<open>
  \<^verbatim>\<open>xs.splice(start, 1)\<close>: a negative start counts from the end (and is clamped at 0), a
  start beyond the end is clamped to the length; at most one element is removed.
\<close>

definition splice1 :: "int \<Rightarrow> 'a list \<Rightarrow> 'a list" where
  "splice1 start xs =
     (let n = int (length xs);
          s = (if start < 0 then max (n + start) 0 else min start n)
      in take (nat s) xs @ drop (Suc (nat s)) xs)"

section \<open>createStore.ts: the functions of the store\<close>

definition ensureCanMutateNextListeners :: "('s, 'p) cells \<Rightarrow> ('s, 'p) cells" where
  "ensureCanMutateNextListeners st =
     (if currentListeners st = Some (nextListeners st)
      then st\<lparr>arrays := arrays st @ [arrays st ! nextListeners st],
              nextListeners := length (arrays st)\<rparr>
      else st)"

definition getState :: "('s, 'p, 's option) call" where
  "getState st =
     (if isDispatching st then (Inl IllegalReentrantRead, st)
      else (Inr (currentState st), st))"

text \<open>\<^verbatim>\<open>subscribe\<close> returns the number of the new subscription: its unsubscribe function.\<close>

definition subscribe :: "('v, 'p listener) arg \<Rightarrow> ('s, 'p, nat) call" where
  "subscribe listener st =
     (case listener of
        Function l \<Rightarrow>
          if isDispatching st then (Inl ReentrantSubscribe, st)
          else
            let st1 = st\<lparr>subscriptions := subscriptions st @ [(l, True)]\<rparr>;
                st2 = ensureCanMutateNextListeners st1;
                st3 = st2\<lparr>arrays := (arrays st2)
                        [nextListeners st2 := arrays st2 ! nextListeners st2 @ [l]]\<rparr>
            in (Inr (length (subscriptions st)), st3)
      | _ \<Rightarrow> (Inl InvalidArgument, st))"

text \<open>
  The closure returned by the \<open>k\<close>-th \<^verbatim>\<open>subscribe\<close>. Calling a subscription number that
  no \<^verbatim>\<open>subscribe\<close> has returned yet is a call of something that is not a function.
\<close>

definition unsubscribe :: "nat \<Rightarrow> ('s, 'p, unit) call" where
  "unsubscribe k st =
     (if length (subscriptions st) \<le> k then (Inl (Thrown ''TypeError''), st)
      else
        let listener = fst (subscriptions st ! k) in
        if \<not> snd (subscriptions st ! k) then (Inr (), st)
        else if isDispatching st then (Inl ReentrantUnsubscribe, st)
        else
          let st1 = st\<lparr>subscriptions := (subscriptions st)[k := (listener, False)]\<rparr>;
              st2 = ensureCanMutateNextListeners st1;
              index = indexOf (arrays st2 ! nextListeners st2) listener;
              st3 = st2\<lparr>arrays := (arrays st2)
                      [nextListeners st2 := splice1 index (arrays st2 ! nextListeners st2)]\<rparr>
          in (Inr (), st3\<lparr>currentListeners := None\<rparr>))"

text \<open>
  \<^verbatim>\<open>dispatch\<close>, its notification loop and the callbacks it runs call each other. The first
  argument bounds the depth of that recursion (the call stack): a listener that dispatches
  whenever it is called never returns. \<open>notify fuel p i\<close> is the \<^verbatim>\<open>for\<close> loop at index
  \<open>i\<close> over the array at address \<open>p\<close> (the constant \<^verbatim>\<open>listeners\<close>); it reads the array's
  length and element from the heap at every iteration, as the source does.
\<close>

fun dispatch :: "nat \<Rightarrow> 'p jsval \<Rightarrow> ('s, 'p, 'p jsval) call"
  and notify :: "nat \<Rightarrow> nat \<Rightarrow> nat \<Rightarrow> ('s, 'p, unit) call"
  and run_cmds :: "nat \<Rightarrow> 'p cmd list \<Rightarrow> ('s, 'p, unit) call"
where
  "dispatch 0 action st = (Inl StackExhausted, st)"
| "dispatch (Suc n) action st =
     (if \<not> isPlainObject action then (Inl InvalidActionShape, st)
      else if atype action = None then (Inl MissingActionType, st)
      else if isDispatching st then (Inl ReentrantDispatch, st)
      else
        (case currentReducer st (currentState st) action of
           Outcome cs fin \<Rightarrow>
             (case run_cmds n cs (st\<lparr>isDispatching := True\<rparr>) of
                (Inl e, st1) \<Rightarrow> (Inl e, st1\<lparr>isDispatching := False\<rparr>)
              | (Inr u, st1) \<Rightarrow>
                  (case fin of
                     Inl msg \<Rightarrow> (Inl (Thrown msg), st1\<lparr>isDispatching := False\<rparr>)
                   | Inr s \<Rightarrow>
                       let st2 = st1\<lparr>currentState := Some s, isDispatching := False\<rparr>;
                           st3 = st2\<lparr>currentListeners := Some (nextListeners st2)\<rparr>
                       in (case notify n (nextListeners st2) 0 st3 of
                             (Inl e, st4) \<Rightarrow> (Inl e, st4)
                           | (Inr u, st4) \<Rightarrow> (Inr action, st4))))))"
| "notify 0 p i st = (Inl StackExhausted, st)"
| "notify (Suc n) p i st =
     (if i < length (arrays st ! p) then
        let listener = arrays st ! p ! i in
        (case run_cmds n (body listener) (st\<lparr>invoked := invoked st @ [listener]\<rparr>) of
           (Inl e, st1) \<Rightarrow> (Inl e, st1)
         | (Inr u, st1) \<Rightarrow> notify n p (Suc i) st1)
      else (Inr (), st))"
| "run_cmds n [] st = (Inr (), st)"
| "run_cmds n (c # cs) st =
     (case (case c of
              CallDispatch v \<Rightarrow>
                (case dispatch n v st of
                   (Inl e, st1) \<Rightarrow> (Inl e, st1)
                 | (Inr a, st1) \<Rightarrow> (Inr (), st1))
            | CallGetState \<Rightarrow>
                (case getState st of
                   (Inl e, st1) \<Rightarrow> (Inl e, st1)
                 | (Inr s, st1) \<Rightarrow> (Inr (), st1))
            | CallSubscribe l \<Rightarrow>
                (case subscribe (Function l :: (unit, 'p listener) arg) st of
                   (Inl e, st1) \<Rightarrow> (Inl e, st1)
                 | (Inr k, st1) \<Rightarrow> (Inr (), st1))
            | CallUnsubscribe k \<Rightarrow> unsubscribe k st
            | ThrowError msg \<Rightarrow> (Inl (Thrown msg), st)) of
        (Inl e, st1) \<Rightarrow> (Inl e, st1)
      | (Inr u, st1) \<Rightarrow> run_cmds n cs st1)"

text \<open>
  utils/actionTypes.ts builds the two synthetic action types once per process from random
  suffixes. The suffixes are parameters here.
\<close>

record ActionTypes =
  INIT :: string
  REPLACE :: string

definition ActionTypes :: "string \<Rightarrow> string \<Rightarrow> ActionTypes" where
  "ActionTypes rnd1 rnd2 =
     \<lparr>INIT = ''@@redux/INIT'' @ rnd1, REPLACE = ''@@redux/REPLACE'' @ rnd2\<rparr>"

text \<open>
  \<^verbatim>\<open>replaceReducer\<close> assigns the reducer before it dispatches. (The source returns the
  store object; the model returns nothing.)
\<close>

definition replaceReducer ::
  "ActionTypes \<Rightarrow> nat \<Rightarrow> ('v, ('s, 'p) reducer) arg \<Rightarrow> ('s, 'p, unit) call" where
  "replaceReducer ats fuel nextReducer st =
     (case nextReducer of
        Function r \<Rightarrow>
          (case dispatch fuel (PlainObject (Some (REPLACE ats)) []) (st\<lparr>currentReducer := r\<rparr>) of
             (Inl e, st1) \<Rightarrow> (Inl e, st1)
           | (Inr a, st1) \<Rightarrow> (Inr (), st1))
      | _ \<Rightarrow> (Inl InvalidArgument, st))"

text \<open>
  The store object: its methods, each a function of the private cells. (The observable
  adapter is left out.) The \<open>nat\<close> arguments are stack budgets, as in \<open>dispatch\<close>.
\<close>

record ('s, 'p) Store =
  store_dispatch :: "nat \<Rightarrow> 'p jsval \<Rightarrow> ('s, 'p, 'p jsval) call"
  store_subscribe :: "(unit, 'p listener) arg \<Rightarrow> ('s, 'p, nat) call"
  store_getState :: "('s, 'p, 's option) call"
  store_replaceReducer :: "nat \<Rightarrow> (unit, ('s, 'p) reducer) arg \<Rightarrow> ('s, 'p, unit) call"

text \<open>
  A store creator as an enhancer sees it (\<^verbatim>\<open>StoreEnhancerStoreCreator\<close>): called with a
  reducer and an optional preloaded state, it returns a store, that is its methods and the
  initial contents of its cells, or throws.
\<close>

type_synonym ('s, 'p) creator =
  "(unit, ('s, 'p) reducer) arg \<Rightarrow> 's option \<Rightarrow> error + (('s, 'p) Store \<times> ('s, 'p) cells)"

type_synonym ('s, 'p) enhancer = "('s, 'p) creator \<Rightarrow> ('s, 'p) creator"

text \<open>\<^verbatim>\<open>preloadedState as S\<close>: the slot read as a state.\<close>

fun state_of :: "('s, 'f) arg \<Rightarrow> 's option" where
  "state_of (Value v) = Some v"
| "state_of a = None"

fun slot_of :: "'s option \<Rightarrow> ('s, 'f) arg" where
  "slot_of (Some v) = Value v"
| "slot_of None = Undefined"

text \<open>
  The part of \<^verbatim>\<open>createStore\<close> below the enhancer branch (source lines 102 to 368): the
  reducer check, the cells, the initial dispatch, the store object.
\<close>

definition createStore_base :: "ActionTypes \<Rightarrow> nat \<Rightarrow> ('s, 'p) creator" where
  "createStore_base ats fuel reducer preloadedState =
     (case reducer of
        Function r \<Rightarrow>
          (case dispatch fuel (PlainObject (Some (INIT ats)) [])
                  \<lparr>currentReducer = r, currentState = preloadedState,
                   currentListeners = Some 0, nextListeners = 0, isDispatching = False,
                   arrays = [[]], subscriptions = [], invoked = []\<rparr> of
             (Inl e, st) \<Rightarrow> Inl e
           | (Inr a, st) \<Rightarrow>
               Inr (\<lparr>store_dispatch = dispatch, store_subscribe = subscribe,
                     store_getState = getState,
                     store_replaceReducer = replaceReducer ats\<rparr>, st))
      | _ \<Rightarrow> Inl InvalidArgument)"

text \<open>
  \<^verbatim>\<open>createStore(reducer, preloadedState, enhancer)\<close>, with \<open>arg3\<close> for \<^verbatim>\<open>arguments[3]\<close>.
  The function handed to the enhancer is \<^verbatim>\<open>createStore\<close> itself; an enhancer calls it
  with a reducer and a preloaded state, and on such calls it is \<open>createStore_base\<close>
  (lemma \<open>createStore_two_args\<close> below).
\<close>

definition createStore ::
  "ActionTypes \<Rightarrow> nat \<Rightarrow> (unit, ('s, 'p) reducer) arg \<Rightarrow> ('s, ('s, 'p) enhancer) arg \<Rightarrow>
     ('s, ('s, 'p) enhancer) arg \<Rightarrow> ('z, 'g) arg \<Rightarrow> error + (('s, 'p) Store \<times> ('s, 'p) cells)" where
  "createStore ats fuel reducer preloadedState enhancer arg3 =
     (if (is_function preloadedState \<and> is_function enhancer) \<or>
         (is_function enhancer \<and> is_function arg3)
      then Inl AmbiguousEnhancer
      else
        (case (if is_function preloadedState \<and> is_undefined enhancer
               then (preloadedState, Undefined) else (enhancer, preloadedState)) of
           (enhancer1, preloadedState1) \<Rightarrow>
             if \<not> is_undefined enhancer1 then
               (case enhancer1 of
                  Function e \<Rightarrow> e (createStore_base ats fuel) reducer (state_of preloadedState1)
                | _ \<Rightarrow> Inl InvalidArgument)
             else createStore_base ats fuel reducer (state_of preloadedState1)))"

section \<open>compose.ts and applyMiddleware.ts\<close>

text \<open>\<^verbatim>\<open>funcs.reduce\<close> without an initial value starts from the first element.\<close>

definition compose :: "('a \<Rightarrow> 'a) list \<Rightarrow> 'a \<Rightarrow> 'a" where
  "compose funcs =
     (if length funcs = 0 then (\<lambda>arg. arg)
      else if length funcs = 1 then funcs ! 0
      else foldl (\<lambda>a b. (\<lambda>args. a (b args))) (hd funcs) (tl funcs))"

type_synonym ('s, 'p) dispatchfn = "'p jsval \<Rightarrow> ('s, 'p, 'p jsval) call"

record ('s, 'p) MiddlewareAPI =
  api_getState :: "('s, 'p, 's option) call"
  api_dispatch :: "('s, 'p) dispatchfn"

text \<open>
  A middleware: given the API it returns a function from the next dispatch to a dispatch.
  \<open>dispatches_on_setup\<close> says whether it calls the API's \<^verbatim>\<open>dispatch\<close> while it is being
  constructed, when that still is the placeholder that throws.
\<close>

datatype ('s, 'p) middleware =
  Middleware (dispatches_on_setup: bool)
    (wrapper: "('s, 'p) MiddlewareAPI \<Rightarrow> ('s, 'p) dispatchfn \<Rightarrow> ('s, 'p) dispatchfn")

text \<open>
  The variable \<^verbatim>\<open>dispatch\<close> of \<^verbatim>\<open>applyMiddleware\<close> once it is bound to the composed
  chain. The API's \<^verbatim>\<open>dispatch\<close> forwards to that same variable, so the chain refers to
  itself; the first argument bounds how deep a middleware may re-enter the chain.
\<close>

primrec mw_dispatch ::
  "('s, 'p) middleware list \<Rightarrow> ('s, 'p) Store \<Rightarrow> nat \<Rightarrow> ('s, 'p) dispatchfn" where
  "mw_dispatch middlewares store 0 = (\<lambda>action st. (Inl StackExhausted, st))"
| "mw_dispatch middlewares store (Suc n) =
     compose
       (map (\<lambda>m. wrapper m \<lparr>api_getState = store_getState store,
                             api_dispatch = mw_dispatch middlewares store n\<rparr>) middlewares)
       (store_dispatch store (Suc n))"

definition applyMiddleware :: "('s, 'p) middleware list \<Rightarrow> ('s, 'p) enhancer" where
  "applyMiddleware middlewares createStore' reducer preloadedState =
     (case createStore' reducer preloadedState of
        Inl e \<Rightarrow> Inl e
      | Inr (store, st) \<Rightarrow>
          if list_ex dispatches_on_setup middlewares then Inl PrematureDispatch
          else Inr (store\<lparr>store_dispatch := mw_dispatch middlewares store\<rparr>, st))"

section \<open>Example stores\<close>

definition counter :: "(int, unit) reducer" where
  "counter s a =
     (let k = (case s of None \<Rightarrow> 0 | Some k \<Rightarrow> k) in
      if atype a = Some ''inc'' then Outcome [] (Inr (k + 1))
      else if atype a = Some ''boom'' then Outcome [] (Inl ''boom'')
      else if atype a = Some ''again''
        then Outcome [CallDispatch (PlainObject (Some ''inc'') [])] (Inr k)
      else if atype a = Some ''blank''
        then Outcome [CallDispatch (PlainObject None [])] (Inr k)
      else Outcome [] (Inr k))"

definition countdown :: "(int, unit) reducer" where
  "countdown s a =
     (let k = (case s of None \<Rightarrow> 0 | Some k \<Rightarrow> k) in
      if atype a = Some ''inc'' then Outcome [] (Inr (k - 1)) else Outcome [] (Inr k))"

definition counter_cells :: "(int, unit) cells" where
  "counter_cells =
     \<lparr>currentReducer = counter, currentState = Some 0, currentListeners = Some 0,
      nextListeners = 0, isDispatching = False, arrays = [[]], subscriptions = [],
      invoked = []\<rparr>"

definition act :: "string \<Rightarrow> unit jsval" where
  "act t = PlainObject (Some t) []"

text \<open>A middleware that does \<open>f\<close> to the cells and then calls the next dispatch once.\<close>

definition tap ::
  "('p jsval \<Rightarrow> ('s, 'p) cells \<Rightarrow> ('s, 'p) cells) \<Rightarrow> ('s, 'p) middleware" where
  "tap f = Middleware False (\<lambda>api next action st. next action (f action st))"

definition mark :: "nat \<Rightarrow> unit jsval \<Rightarrow> (int, unit) cells \<Rightarrow> (int, unit) cells" where
  "mark k action st = st\<lparr>invoked := invoked st @ [Listener k []]\<rparr>"

text \<open>
  A store with two listeners. \<open>listener_A\<close> subscribes \<open>listener_B\<close> and calls the
  unsubscribe function of \<open>listener_C\<close>. And a store with one listener, which unsubscribes
  itself and dispatches.
\<close>

definition listener_A :: "unit listener" where
  "listener_A = Listener 1 [CallSubscribe (Listener 3 []), CallUnsubscribe 1]"

definition listener_B :: "unit listener" where
  "listener_B = Listener 3 []"

definition listener_C :: "unit listener" where
  "listener_C = Listener 2 []"

definition watched_cells :: "(int, unit) cells" where
  "watched_cells =
     counter_cells\<lparr>nextListeners := 1, arrays := [[], [listener_A, listener_C]],
       subscriptions := [(listener_A, True), (listener_C, True)]\<rparr>"

text \<open>A store whose first listener throws.\<close>

definition listener_T :: "unit listener" where
  "listener_T = Listener 5 [ThrowError ''oops'']"

definition throwing_cells :: "(int, unit) cells" where
  "throwing_cells =
     counter_cells\<lparr>nextListeners := 1, arrays := [[], [listener_T, listener_C]],
       subscriptions := [(listener_T, True), (listener_C, True)]\<rparr>"

text \<open>
  A reducer that calls \<^verbatim>\<open>store.subscribe\<close> when it handles \<^verbatim>\<open>listen\<close> and the first
  unsubscribe function when it handles \<^verbatim>\<open>leave\<close>, and the watched store with that reducer.
\<close>

definition registrar :: "(int, unit) reducer" where
  "registrar s a =
     (let k = (case s of None \<Rightarrow> 0 | Some k \<Rightarrow> k) in
      if atype a = Some ''listen'' then Outcome [CallSubscribe (Listener 9 [])] (Inr k)
      else if atype a = Some ''leave'' then Outcome [CallUnsubscribe 0] (Inr k)
      else Outcome [] (Inr k))"

definition registrar_cells :: "(int, unit) cells" where
  "registrar_cells = watched_cells\<lparr>currentReducer := registrar\<rparr>"

definition listener_D :: "unit listener" where
  "listener_D = Listener 4 [CallUnsubscribe 0, CallDispatch (act ''inc'')]"

definition chatty_cells :: "(int, unit) cells" where
  "chatty_cells =
     counter_cells\<lparr>nextListeners := 1, arrays := [[], [listener_D]],
       subscriptions := [(listener_D, True)]\<rparr>"

section \<open>Notions used to state the properties\<close>

text \<open>The registered listeners: the contents of the array \<^verbatim>\<open>nextListeners\<close> refers to.\<close>

definition listeners_of :: "('s, 'p) cells \<Rightarrow> 'p listener list" where
  "listeners_of st = arrays st ! nextListeners st"

text \<open>The listeners of the subscriptions whose unsubscribe function has not run.\<close>

definition active :: "('p listener \<times> bool) list \<Rightarrow> 'p listener list" where
  "active subs = map fst (filter snd subs)"

text \<open>
  What holds of the cells of every store: \<^verbatim>\<open>nextListeners\<close> refers to an array of the
  heap, and that array holds each listener as often as it has subscriptions that are still
  active. It holds of a new store and every store function keeps it (section
  "Consistent cells" below).
\<close>

definition consistent :: "('s, 'p) cells \<Rightarrow> bool" where
  "consistent st \<longleftrightarrow>
     nextListeners st < length (arrays st) \<and>
     mset (listeners_of st) = mset (active (subscriptions st))"

text \<open>
  An array that no store function will write to: it is on the heap and, if it is the one
  \<^verbatim>\<open>nextListeners\<close> refers to, \<^verbatim>\<open>currentListeners\<close> refers to it as well, so that the
  next mutation copies it first.
\<close>

definition frozen :: "('s, 'p) cells \<Rightarrow> nat \<Rightarrow> bool" where
  "frozen st p \<longleftrightarrow>
     p < length (arrays st) \<and> (p = nextListeners st \<longrightarrow> currentListeners st = Some p)"

text \<open>
  A store call of a listener that only reads the state or changes the subscriptions: it
  subscribes a listener, or calls one of the first \<open>n\<close> unsubscribe functions.
\<close>

fun is_quiet :: "nat \<Rightarrow> 'p cmd \<Rightarrow> bool" where
  "is_quiet n CallGetState = True"
| "is_quiet n (CallSubscribe l) = True"
| "is_quiet n (CallUnsubscribe k) = (k < n)"
| "is_quiet n c = False"

definition quiet_listener :: "nat \<Rightarrow> 'p listener \<Rightarrow> bool" where
  "quiet_listener n l = list_all (is_quiet n) (body l)"

text \<open>
  The subscription protocol in the spec's words, on the list of registered listeners and the
  subscriptions: subscribing appends the listener; an unsubscribe function removes its
  listener once, the first time it is called, and does nothing afterwards.
\<close>

fun registry_step ::
  "'p cmd \<Rightarrow> 'p listener list \<times> ('p listener \<times> bool) list \<Rightarrow>
     'p listener list \<times> ('p listener \<times> bool) list" where
  "registry_step (CallSubscribe l) (ls, subs) = (ls @ [l], subs @ [(l, True)])"
| "registry_step (CallUnsubscribe k) (ls, subs) =
     (if k < length subs \<and> snd (subs ! k)
      then (remove1 (fst (subs ! k)) ls, subs[k := (fst (subs ! k), False)])
      else (ls, subs))"
| "registry_step c reg = reg"

text \<open>
  The exception that ends the reducer when \<^verbatim>\<open>dispatch\<close> calls it for an action, if
  one does: the error of the first of its store calls that throws, else its own.
\<close>

definition reducer_exception :: "nat \<Rightarrow> ('s, 'p) cells \<Rightarrow> 'p jsval \<Rightarrow> error option" where
  "reducer_exception n st action =
     (case currentReducer st (currentState st) action of
        Outcome cs fin \<Rightarrow>
          (case fst (run_cmds n cs (st\<lparr>isDispatching := True\<rparr>)) of
             Inl e \<Rightarrow> Some e
           | Inr u \<Rightarrow> (case fin of Inl msg \<Rightarrow> Some (Thrown msg) | Inr s \<Rightarrow> None)))"

text \<open>
  How the cells after a run of store functions relate to the cells before: the reducer is
  the same, the record of listener calls is extended at its end, and the arrays that were
  frozen are frozen still and hold what they held.
\<close>

definition grows :: "('s, 'p) cells \<Rightarrow> ('s, 'p) cells \<Rightarrow> bool" where
  "grows st st' \<longleftrightarrow>
     currentReducer st' = currentReducer st \<and>
     prefix (invoked st) (invoked st') \<and>
     (\<forall>p. frozen st p \<longrightarrow> frozen st' p \<and> arrays st' ! p = arrays st ! p)"

text \<open>
  The notification in the spec's words: "synchronously invokes every listener registered
  as of the start of this dispatch, in registration order". \<open>notify_snapshot n ls\<close> calls
  the listeners of the list \<open>ls\<close>, a value that nothing can change, one after the other
  (it runs the body of each), and stops at the first that throws. The loop of the source,
  \<open>notify\<close>, reads an array that lives on the heap; the two are compared below. (The stack
  budget is spent as in \<open>notify\<close>.)
\<close>

fun notify_snapshot :: "nat \<Rightarrow> 'p listener list \<Rightarrow> ('s, 'p, unit) call" where
  "notify_snapshot 0 ls st = (Inl StackExhausted, st)"
| "notify_snapshot (Suc n) [] st = (Inr (), st)"
| "notify_snapshot (Suc n) (l # ls) st =
     (case run_cmds n (body l) (st\<lparr>invoked := invoked st @ [l]\<rparr>) of
        (Inl e, st1) \<Rightarrow> (Inl e, st1)
      | (Inr u, st1) \<Rightarrow> notify_snapshot n ls st1)"

text \<open>The cells a listener that only subscribes and unsubscribes leaves alone.\<close>

definition same_core :: "('s, 'p) cells \<Rightarrow> ('s, 'p) cells \<Rightarrow> bool" where
  "same_core st st' \<longleftrightarrow>
     currentState st' = currentState st \<and> currentReducer st' = currentReducer st \<and>
     isDispatching st' = isDispatching st \<and> invoked st' = invoked st"

section \<open>While the reducer runs\<close>

text \<open>
  \<open>isDispatching\<close> is set exactly while the reducer runs. Every store call made then
  either throws or does nothing, so the cells stay as they are.
\<close>

lemma dispatch_while_dispatching:
  "isDispatching st \<Longrightarrow> snd (dispatch n v st) = st"
  by (cases n) auto

lemma unsubscribe_while_dispatching:
  "isDispatching st \<Longrightarrow> snd (unsubscribe k st) = st"
  by (simp add: unsubscribe_def Let_def)

lemma run_cmds_while_dispatching:
  "isDispatching st \<Longrightarrow> snd (run_cmds n cs st) = st"
proof (induction cs)
  case Nil
  then show ?case by simp
next
  case (Cons c cs)
  show ?case
  proof (cases c)
    case (CallDispatch v)
    with Cons dispatch_while_dispatching[of st n v] show ?thesis
      by (cases "dispatch n v st") (auto split: sum.splits)
  next
    case CallGetState
    with Cons show ?thesis by (simp add: getState_def)
  next
    case (CallSubscribe l)
    with Cons show ?thesis by (simp add: subscribe_def)
  next
    case (CallUnsubscribe k)
    with Cons unsubscribe_while_dispatching[of st k] show ?thesis
      by (cases "unsubscribe k st") (auto split: sum.splits)
  next
    case (ThrowError msg)
    with Cons show ?thesis by simp
  qed
qed

lemma run_cmds_append:
  "run_cmds n (cs @ ds) st =
     (case run_cmds n cs st of
        (Inl e, st1) \<Rightarrow> (Inl e, st1)
      | (Inr u, st1) \<Rightarrow> run_cmds n ds st1)"
proof (induction cs arbitrary: st)
  case Nil
  then show ?case by simp
next
  case (Cons c cs)
  show ?case
    by (simp add: Cons.IH split: prod.splits sum.splits cmd.splits)
qed

text \<open>
  C3. A reducer that ends with an exception while a valid action is dispatched on an idle
  store: \<^verbatim>\<open>dispatch\<close> ends with that exception, and the cells afterwards are the cells
  before the call. So the state is the pre-dispatch state, no listener was called, the
  reentrancy flag is down, and any later dispatch behaves as on the store before the
  failed call. (Any stack budget but zero will do.)
\<close>

theorem reducer_throw_leaves_store_untouched:
  assumes "isPlainObject a" and "atype a \<noteq> None" and "\<not> isDispatching st"
    and "reducer_exception n st a = Some e"
  shows "dispatch (Suc n) a st = (Inl e, st) \<and>
         (let st' = snd (dispatch (Suc n) a st) in
            currentState st' = currentState st \<and> invoked st' = invoked st \<and>
            \<not> isDispatching st' \<and> (\<forall>m b. dispatch m b st' = dispatch m b st))"
proof -
  obtain cs fin where o: "currentReducer st (currentState st) a = Outcome cs fin"
    by (cases "currentReducer st (currentState st) a")
  let ?st = "st\<lparr>isDispatching := True\<rparr>"
  obtain r st1 where r: "run_cmds n cs ?st = (r, st1)" by (cases "run_cmds n cs ?st")
  have "snd (run_cmds n cs ?st) = ?st" by (rule run_cmds_while_dispatching) simp
  with r have st1: "st1 = ?st" by simp
  have idle: "st\<lparr>isDispatching := False\<rparr> = st" using assms(3) by simp
  have "dispatch (Suc n) a st = (Inl e, st)"
  proof (cases r)
    case (Inl e')
    with assms(4) o r have "e' = e" by (simp add: reducer_exception_def)
    with Inl o r st1 show ?thesis by (simp add: assms(1,2,3) idle)
  next
    case (Inr u)
    with assms(4) o r obtain msg where "fin = Inl msg" and "e = Thrown msg"
      by (cases fin) (simp_all add: reducer_exception_def)
    with Inr o r st1 show ?thesis by (simp add: assms(1,2,3) idle)
  qed
  with assms(3) show ?thesis by simp
qed

theorem reducer_throw_witness:
  "isPlainObject (act ''boom'') \<and> atype (act ''boom'') \<noteq> None \<and>
   \<not> isDispatching counter_cells \<and>
   reducer_exception 0 counter_cells (act ''boom'') = Some (Thrown ''boom'') \<and>
   dispatch (Suc 0) (act ''boom'') counter_cells = (Inl (Thrown ''boom''), counter_cells) \<and>
   dispatch (Suc (Suc 0)) (act ''inc'') counter_cells
     = (Inr (act ''inc''), counter_cells\<lparr>currentState := Some 1\<rparr>)"
proof -
  have h1: "isPlainObject (act ''boom'')" by (simp add: act_def)
  have h2: "atype (act ''boom'') \<noteq> None" by (simp add: act_def)
  have h3: "\<not> isDispatching counter_cells" by (simp add: counter_cells_def)
  have h4: "reducer_exception 0 counter_cells (act ''boom'') = Some (Thrown ''boom'')"
    by (simp add: reducer_exception_def counter_cells_def counter_def act_def)
  from reducer_throw_leaves_store_untouched [OF h1 h2 h3 h4]
  have d1: "dispatch (Suc 0) (act ''boom'') counter_cells = (Inl (Thrown ''boom''), counter_cells)"
    by blast
  have d2: "dispatch (Suc (Suc 0)) (act ''inc'') counter_cells
      = (Inr (act ''inc''), counter_cells\<lparr>currentState := Some 1\<rparr>)"
    by (simp add: act_def counter_cells_def counter_def)
  show ?thesis using h1 h2 h3 h4 d1 d2 by simp
qed

text \<open>
  C4, as amended. A reducer that, while it handles a valid action on an idle store, calls
  \<^verbatim>\<open>store.dispatch\<close> (after store calls \<open>pre\<close> that returned): the inner call fails and
  leaves the cells as they are, whatever the reducer would do with the value passed, and
  the outer dispatch fails with the same error, the cells being those before the outer
  call. The error is \<open>ReentrantDispatch\<close> when the value passed is a plain object with a
  defined type; \<^verbatim>\<open>dispatch\<close> checks the shape of its argument first, so it is
  \<open>InvalidActionShape\<close> for a value that is no plain object and \<open>MissingActionType\<close> for
  a plain object with no type.
\<close>

theorem reducer_dispatch_rejected:
  assumes "isPlainObject a" and "atype a \<noteq> None" and "\<not> isDispatching st"
    and "currentReducer st (currentState st) a = Outcome (pre @ CallDispatch x # post) fin"
    and "fst (run_cmds (Suc n) pre (st\<lparr>isDispatching := True\<rparr>)) = Inr ()"
    and "e = (if \<not> isPlainObject x then InvalidActionShape
              else if atype x = None then MissingActionType else ReentrantDispatch)"
  shows "dispatch (Suc n) x (st\<lparr>isDispatching := True\<rparr>)
           = (Inl e, st\<lparr>isDispatching := True\<rparr>) \<and>
         dispatch (Suc (Suc n)) a st = (Inl e, st)"
proof -
  let ?st = "st\<lparr>isDispatching := True\<rparr>"
  have inner: "dispatch (Suc n) x ?st = (Inl e, ?st)"
    using assms(6) by simp
  have "snd (run_cmds (Suc n) pre ?st) = ?st" by (rule run_cmds_while_dispatching) simp
  with assms(5) have pre: "run_cmds (Suc n) pre ?st = (Inr (), ?st)"
    by (cases "run_cmds (Suc n) pre ?st") simp
  have "run_cmds (Suc n) (pre @ CallDispatch x # post) ?st = (Inl e, ?st)"
    unfolding run_cmds_append pre using inner by simp
  with assms(4) have "dispatch (Suc (Suc n)) a st = (Inl e, st)"
    by (simp add: assms(1,2,3))
  with inner show ?thesis by simp
qed

theorem reducer_dispatch_witness:
  "isPlainObject (act ''again'') \<and> atype (act ''again'') \<noteq> None \<and>
   \<not> isDispatching counter_cells \<and>
   currentReducer counter_cells (currentState counter_cells) (act ''again'')
     = Outcome ([] @ CallDispatch (act ''inc'') # []) (Inr 0) \<and>
   fst (run_cmds (Suc 0) [] (counter_cells\<lparr>isDispatching := True\<rparr>)) = Inr () \<and>
   isPlainObject (act ''inc'') \<and> atype (act ''inc'') \<noteq> None \<and>
   dispatch (Suc 0) (act ''inc'') (counter_cells\<lparr>isDispatching := True\<rparr>)
     = (Inl ReentrantDispatch, counter_cells\<lparr>isDispatching := True\<rparr>) \<and>
   dispatch (Suc (Suc 0)) (act ''again'') counter_cells = (Inl ReentrantDispatch, counter_cells)"
proof -
  have h1: "isPlainObject (act ''again'')" by (simp add: act_def)
  have h2: "atype (act ''again'') \<noteq> None" by (simp add: act_def)
  have h3: "\<not> isDispatching counter_cells" by (simp add: counter_cells_def)
  have h4: "currentReducer counter_cells (currentState counter_cells) (act ''again'')
              = Outcome ([] @ CallDispatch (act ''inc'') # []) (Inr 0)"
    by (simp add: counter_cells_def counter_def act_def)
  have h5: "fst (run_cmds (Suc 0) [] (counter_cells\<lparr>isDispatching := True\<rparr>)) = Inr ()"
    by simp
  have h6: "ReentrantDispatch
              = (if \<not> isPlainObject (act ''inc'') then InvalidActionShape
                 else if atype (act ''inc'') = None then MissingActionType
                 else ReentrantDispatch)"
    by (simp add: act_def)
  have h7: "isPlainObject (act ''inc'')" and h8: "atype (act ''inc'') \<noteq> None"
    by (simp_all add: act_def)
  from reducer_dispatch_rejected [OF h1 h2 h3 h4 h5 h6] h1 h2 h3 h4 h5 h7 h8
  show ?thesis by simp
qed

text \<open>
  The claim as it stands fails for a reducer that dispatches a plain object with no type:
  the inner call, and with it the outer one, fails with \<open>MissingActionType\<close>.
\<close>

theorem reducer_dispatch_counterexample:
  "isPlainObject (act ''blank'') \<and> atype (act ''blank'') \<noteq> None \<and>
   \<not> isDispatching counter_cells \<and>
   currentReducer counter_cells (currentState counter_cells) (act ''blank'')
     = Outcome [CallDispatch (PlainObject None [])] (Inr 0) \<and>
   dispatch (Suc 0) (PlainObject None []) (counter_cells\<lparr>isDispatching := True\<rparr>)
     = (Inl MissingActionType, counter_cells\<lparr>isDispatching := True\<rparr>) \<and>
   dispatch (Suc (Suc 0)) (act ''blank'') counter_cells = (Inl MissingActionType, counter_cells) \<and>
   MissingActionType \<noteq> ReentrantDispatch"
  by (simp add: act_def counter_cells_def counter_def)

text \<open>
  C8, as amended. A reducer that, while it handles a valid action on an idle store, calls
  \<^verbatim>\<open>store.subscribe\<close> with a listener (after store calls \<open>pre\<close> that returned): the call
  fails with \<open>ReentrantSubscribe\<close> and leaves the cells as they are, so the listener is not
  registered, and the dispatch fails with the same error, the cells being those before the
  dispatch. A reducer that calls an unsubscribe function that has not run before: the call
  fails with \<open>ReentrantUnsubscribe\<close>, and so does the dispatch, the cells again being those
  before it.
\<close>

theorem reducer_subscribe_rejected:
  fixes st :: "('s, 'p) cells"
  assumes "isPlainObject a" and "atype a \<noteq> None" and "\<not> isDispatching st"
    and "currentReducer st (currentState st) a = Outcome (pre @ c # post) fin"
    and "fst (run_cmds n pre (st\<lparr>isDispatching := True\<rparr>)) = Inr ()"
  shows "(\<forall>l. c = CallSubscribe l \<longrightarrow>
            subscribe (Function l :: (unit, 'p listener) arg) (st\<lparr>isDispatching := True\<rparr>)
              = (Inl ReentrantSubscribe, st\<lparr>isDispatching := True\<rparr>) \<and>
            dispatch (Suc n) a st = (Inl ReentrantSubscribe, st)) \<and>
         (\<forall>k. c = CallUnsubscribe k \<and> k < length (subscriptions st) \<and>
              snd (subscriptions st ! k) \<longrightarrow>
            unsubscribe k (st\<lparr>isDispatching := True\<rparr>)
              = (Inl ReentrantUnsubscribe, st\<lparr>isDispatching := True\<rparr>) \<and>
            dispatch (Suc n) a st = (Inl ReentrantUnsubscribe, st))"
proof -
  let ?st = "st\<lparr>isDispatching := True\<rparr>"
  have "snd (run_cmds n pre ?st) = ?st" by (rule run_cmds_while_dispatching) simp
  with assms(5) have pre: "run_cmds n pre ?st = (Inr (), ?st)"
    by (cases "run_cmds n pre ?st") simp
  have idle: "st\<lparr>isDispatching := False\<rparr> = st" using assms(3) by simp
  have 1: "subscribe (Function l :: (unit, 'p listener) arg) ?st = (Inl ReentrantSubscribe, ?st) \<and>
           dispatch (Suc n) a st = (Inl ReentrantSubscribe, st)"
    if c: "c = CallSubscribe l" for l
  proof -
    have inner: "subscribe (Function l :: (unit, 'p listener) arg) ?st
                   = (Inl ReentrantSubscribe, ?st)"
      by (simp add: subscribe_def)
    have "run_cmds n (pre @ c # post) ?st = (Inl ReentrantSubscribe, ?st)"
      unfolding run_cmds_append pre c using inner by simp
    with assms(4) have "dispatch (Suc n) a st = (Inl ReentrantSubscribe, st)"
      by (simp add: assms(1,2,3) idle)
    with inner show ?thesis by simp
  qed
  have 2: "unsubscribe k ?st = (Inl ReentrantUnsubscribe, ?st) \<and>
           dispatch (Suc n) a st = (Inl ReentrantUnsubscribe, st)"
    if c: "c = CallUnsubscribe k" and k: "k < length (subscriptions st)"
      and s: "snd (subscriptions st ! k)" for k
  proof -
    have inner: "unsubscribe k ?st = (Inl ReentrantUnsubscribe, ?st)"
      using k s by (simp add: unsubscribe_def)
    have "run_cmds n (pre @ c # post) ?st = (Inl ReentrantUnsubscribe, ?st)"
      unfolding run_cmds_append pre c using inner by simp
    with assms(4) have "dispatch (Suc n) a st = (Inl ReentrantUnsubscribe, st)"
      by (simp add: assms(1,2,3) idle)
    with inner show ?thesis by simp
  qed
  from 1 2 show ?thesis by blast
qed

theorem reducer_subscribe_witness:
  "isPlainObject (act ''listen'') \<and> atype (act ''listen'') = Some ''listen'' \<and>
   isPlainObject (act ''leave'') \<and> atype (act ''leave'') = Some ''leave'' \<and>
   \<not> isDispatching registrar_cells \<and>
   currentReducer registrar_cells (currentState registrar_cells) (act ''listen'')
     = Outcome ([] @ CallSubscribe (Listener 9 []) # []) (Inr 0) \<and>
   currentReducer registrar_cells (currentState registrar_cells) (act ''leave'')
     = Outcome ([] @ CallUnsubscribe 0 # []) (Inr 0) \<and>
   fst (run_cmds 0 [] (registrar_cells\<lparr>isDispatching := True\<rparr>)) = Inr () \<and>
   subscriptions registrar_cells = [(listener_A, True), (listener_C, True)] \<and>
   subscribe (Function (Listener 9 []) :: (unit, unit listener) arg)
       (registrar_cells\<lparr>isDispatching := True\<rparr>)
     = (Inl ReentrantSubscribe, registrar_cells\<lparr>isDispatching := True\<rparr>) \<and>
   dispatch (Suc 0) (act ''listen'') registrar_cells
     = (Inl ReentrantSubscribe, registrar_cells) \<and>
   unsubscribe 0 (registrar_cells\<lparr>isDispatching := True\<rparr>)
     = (Inl ReentrantUnsubscribe, registrar_cells\<lparr>isDispatching := True\<rparr>) \<and>
   dispatch (Suc 0) (act ''leave'') registrar_cells
     = (Inl ReentrantUnsubscribe, registrar_cells)"
proof -
  have h1: "isPlainObject (act ''listen'')" and h2: "atype (act ''listen'') \<noteq> None"
    and h1': "isPlainObject (act ''leave'')" and h2': "atype (act ''leave'') \<noteq> None"
    and t: "atype (act ''listen'') = Some ''listen''"
    and t': "atype (act ''leave'') = Some ''leave''"
    by (simp_all add: act_def)
  have h3: "\<not> isDispatching registrar_cells"
    by (simp add: registrar_cells_def watched_cells_def counter_cells_def)
  have h4: "currentReducer registrar_cells (currentState registrar_cells) (act ''listen'')
              = Outcome ([] @ CallSubscribe (Listener 9 []) # []) (Inr 0)"
    by (simp add: registrar_cells_def watched_cells_def counter_cells_def registrar_def
        act_def)
  have h4': "currentReducer registrar_cells (currentState registrar_cells) (act ''leave'')
              = Outcome ([] @ CallUnsubscribe 0 # []) (Inr 0)"
    by (simp add: registrar_cells_def watched_cells_def counter_cells_def registrar_def
        act_def)
  have h5: "fst (run_cmds 0 [] (registrar_cells\<lparr>isDispatching := True\<rparr>)) = Inr ()"
    by simp
  have s': "subscriptions registrar_cells = [(listener_A, True), (listener_C, True)]"
    by (simp add: registrar_cells_def watched_cells_def)
  have k: "0 < length (subscriptions registrar_cells)"
    and s: "snd (subscriptions registrar_cells ! 0)"
    by (simp_all add: s')
  from reducer_subscribe_rejected [OF h1 h2 h3 h4 h5]
  have a: "subscribe (Function (Listener 9 []) :: (unit, unit listener) arg)
             (registrar_cells\<lparr>isDispatching := True\<rparr>)
           = (Inl ReentrantSubscribe, registrar_cells\<lparr>isDispatching := True\<rparr>)"
    and b: "dispatch (Suc 0) (act ''listen'') registrar_cells
              = (Inl ReentrantSubscribe, registrar_cells)"
    by blast+
  from reducer_subscribe_rejected [OF h1' h2' h3 h4' h5] k s
  have c: "unsubscribe 0 (registrar_cells\<lparr>isDispatching := True\<rparr>)
             = (Inl ReentrantUnsubscribe, registrar_cells\<lparr>isDispatching := True\<rparr>)"
    and d: "dispatch (Suc 0) (act ''leave'') registrar_cells
              = (Inl ReentrantUnsubscribe, registrar_cells)"
    by blast+
  from h1 h1' t t' h3 h4 h4' h5 s' a b c d show ?thesis by blast
qed

text \<open>
  The claim as it stands fails for a call made by a listener: the dispatch is still in
  progress while it calls the listeners, the reducer has returned, and both calls succeed.
  Listener A, called by the dispatch of \<^verbatim>\<open>inc\<close> on the watched store, subscribes listener B
  and calls the unsubscribe function of listener C for the first time. The dispatch
  returns the action; afterwards B is registered and C is not.
\<close>

theorem reducer_subscribe_counterexample:
  "\<not> isDispatching watched_cells \<and>
   listeners_of watched_cells = [listener_A, listener_C] \<and>
   subscriptions watched_cells = [(listener_A, True), (listener_C, True)] \<and>
   body listener_A = [CallSubscribe listener_B, CallUnsubscribe 1] \<and>
   fst (dispatch (Suc 3) (act ''inc'') watched_cells) = Inr (act ''inc'') \<and>
   invoked (snd (dispatch (Suc 3) (act ''inc'') watched_cells)) = [listener_A, listener_C] \<and>
   listeners_of (snd (dispatch (Suc 3) (act ''inc'') watched_cells))
     = [listener_A, listener_B] \<and>
   subscriptions (snd (dispatch (Suc 3) (act ''inc'') watched_cells))
     = [(listener_A, True), (listener_C, False), (listener_B, True)]"
proof -
  let ?d = "dispatch (Suc 3) (act ''inc'') watched_cells"
  have i: "\<not> isDispatching watched_cells"
    by (simp add: watched_cells_def counter_cells_def)
  have l0: "listeners_of watched_cells = [listener_A, listener_C]"
    by (simp add: listeners_of_def watched_cells_def)
  have b: "body listener_A = [CallSubscribe listener_B, CallUnsubscribe 1]"
    by (simp add: listener_A_def listener_B_def)
  have s: "subscriptions watched_cells = [(listener_A, True), (listener_C, True)]"
    by (simp add: watched_cells_def)
  have r: "fst ?d = Inr (act ''inc'')" by code_simp
  have v: "invoked (snd ?d) = [listener_A, listener_C]" by code_simp
  have l: "listeners_of (snd ?d) = [listener_A, listener_B]" by code_simp
  have u: "subscriptions (snd ?d)
             = [(listener_A, True), (listener_C, False), (listener_B, True)]" by code_simp
  from i l0 s b r v l u show ?thesis by simp
qed

section \<open>Creating a store, enhancers and middleware\<close>

text \<open>Called with a reducer and a preloaded state, \<^verbatim>\<open>createStore\<close> takes its base path.\<close>

lemma createStore_two_args:
  "createStore ats fuel r (slot_of p) Undefined (Undefined :: ('z, 'g) arg)
     = createStore_base ats fuel r p"
  by (cases p) (simp_all add: createStore_def)

lemma compose_two: "compose [f, g] = (\<lambda>x. f (g x))"
  by (simp add: compose_def)

lemma compose_foldr: "compose fs = foldr (\<lambda>f g. (\<lambda>x. f (g x))) fs (\<lambda>x. x)"
proof -
  have "foldl (\<lambda>a b. (\<lambda>args. a (b args))) f gs = (\<lambda>x. f (foldr (\<lambda>f g. (\<lambda>x. f (g x))) gs (\<lambda>x. x) x))" for f :: "'a \<Rightarrow> 'a" and gs
    by (induction gs arbitrary: f) simp_all
  then show ?thesis
    by (cases fs) (auto simp: compose_def)
qed

text \<open>
  C9. A reducer that returns a state \<open>s0\<close> for the undefined state and the synthetic
  initialize action: \<^verbatim>\<open>createStore(R)\<close>, with no preloaded state and no enhancer and a
  stack budget of at least two, returns a store; its cells are those left by one dispatch
  of the initialize action on the initial cells, and \<^verbatim>\<open>getState()\<close> on it returns \<open>s0\<close>.
\<close>

theorem initial_state:
  fixes R :: "('s, 'p) reducer"
  assumes "R None (PlainObject (Some (INIT ats)) []) = Outcome [] (Inr s0)"
  shows "\<exists>store st.
           createStore ats (Suc (Suc n)) (Function R) Undefined Undefined (Undefined :: ('z, 'g) arg)
             = Inr (store, st) \<and>
           dispatch (Suc (Suc n)) (PlainObject (Some (INIT ats)) [])
             \<lparr>currentReducer = R, currentState = None, currentListeners = Some 0,
              nextListeners = 0, isDispatching = False, arrays = [[]], subscriptions = [],
              invoked = []\<rparr> = (Inr (PlainObject (Some (INIT ats)) []), st) \<and>
           store_getState store st = (Inr (Some s0), st)"
  using assms by (simp add: createStore_def createStore_base_def getState_def)

text \<open>
  C6. When \<^verbatim>\<open>createStore\<close> gets an enhancer \<open>e\<close>, as third argument after a second
  argument that is no function (and with no function as a fourth argument), or as second
  argument with no third, its result is the result of \<open>e\<close> applied to \<^verbatim>\<open>createStore\<close>
  itself (as the two-argument creator an enhancer calls) and then to the reducer argument
  and the preloaded state, which is absent in the second case. This holds for every
  reducer argument, callable or not, and every \<open>e\<close>: the outer call adds no check and no
  dispatch of its own.
\<close>

theorem createStore_with_enhancer:
  fixes arg3 :: "('z, 'g) arg" and e :: "('s, 'p) enhancer"
  shows "(\<not> is_function p \<and> \<not> is_function arg3 \<longrightarrow>
           createStore ats fuel r p (Function e) arg3
             = e (\<lambda>r' p'. createStore ats fuel r' (slot_of p') Undefined (Undefined :: ('z, 'g) arg))
                 r (state_of p)) \<and>
         createStore ats fuel r (Function e) Undefined arg3
             = e (\<lambda>r' p'. createStore ats fuel r' (slot_of p') Undefined (Undefined :: ('z, 'g) arg))
                 r None"
proof -
  have self: "(\<lambda>r' p'. createStore ats fuel r' (slot_of p') Undefined (Undefined :: ('z, 'g) arg))
                = createStore_base ats fuel"
    by (intro ext) (rule createStore_two_args)
  show ?thesis
    unfolding self by (cases p) (simp_all add: createStore_def)
qed

text \<open>
  C5. For a store made by \<^verbatim>\<open>applyMiddleware(m1, m2)\<close> from a creator that returns a
  store: its \<^verbatim>\<open>dispatch\<close> is \<open>m1\<close>'s wrapper around \<open>m2\<close>'s wrapper around the base
  store's dispatch, both middlewares being built on the API whose \<^verbatim>\<open>dispatch\<close> is the
  composed dispatch again. When each middleware does something to the cells and then calls
  its next dispatch once, a dispatch does \<open>m1\<close>'s effect, then \<open>m2\<close>'s, then the base
  dispatch, once each.
\<close>

theorem middleware_order:
  assumes "createStore' r p = Inr (store, st)"
    and "\<not> dispatches_on_setup m1" and "\<not> dispatches_on_setup m2"
  shows "\<exists>store'. applyMiddleware [m1, m2] createStore' r p = Inr (store', st) \<and>
           store_getState store' = store_getState store \<and>
           store_dispatch store' (Suc n)
             = wrapper m1 \<lparr>api_getState = store_getState store, api_dispatch = store_dispatch store' n\<rparr>
                 (wrapper m2 \<lparr>api_getState = store_getState store, api_dispatch = store_dispatch store' n\<rparr>
                    (store_dispatch store (Suc n))) \<and>
           (m1 = tap f1 \<and> m2 = tap f2 \<longrightarrow>
              store_dispatch store' (Suc n) a st0 = store_dispatch store (Suc n) a (f2 a (f1 a st0)))"
  using assms by (simp add: applyMiddleware_def compose_def tap_def)

theorem initial_state_witness:
  "counter None (PlainObject (Some (INIT (ActionTypes ''a.b'' ''c.d''))) []) = Outcome [] (Inr 0) \<and>
   (case createStore (ActionTypes ''a.b'' ''c.d'') (Suc (Suc 0)) (Function counter)
           Undefined Undefined (Undefined :: (unit, unit) arg) of
      Inl e \<Rightarrow> False
    | Inr (store, st) \<Rightarrow> st = counter_cells \<and> store_getState store st = (Inr (Some 0), st))"
proof -
  have h: "counter None (PlainObject (Some (INIT (ActionTypes ''a.b'' ''c.d''))) [])
             = Outcome [] (Inr 0)"
    by (simp add: counter_def ActionTypes_def)
  from initial_state [where R = counter and ats = "ActionTypes ''a.b'' ''c.d''" and ?s0.0 = 0
      and n = 0 and ?'z = unit and ?'g = unit, OF h]
  obtain store st where
    c: "createStore (ActionTypes ''a.b'' ''c.d'') (Suc (Suc 0)) (Function counter)
          Undefined Undefined (Undefined :: (unit, unit) arg) = Inr (store, st)"
    and d: "dispatch (Suc (Suc 0)) (PlainObject (Some (INIT (ActionTypes ''a.b'' ''c.d''))) [])
             \<lparr>currentReducer = counter, currentState = None, currentListeners = Some 0,
              nextListeners = 0, isDispatching = False, arrays = [[]], subscriptions = [],
              invoked = []\<rparr> = (Inr (PlainObject (Some (INIT (ActionTypes ''a.b'' ''c.d''))) []), st)"
    and g: "store_getState store st = (Inr (Some 0), st)"
    by blast
  from d have "st = counter_cells"
    by (simp add: counter_cells_def counter_def ActionTypes_def)
  with c g h show ?thesis by simp
qed

theorem createStore_with_enhancer_witness:
  "\<not> is_function (Value 5 :: (int, (int, unit) enhancer) arg) \<and>
   \<not> is_function (Undefined :: (unit, unit) arg) \<and>
   createStore (ActionTypes ''a.b'' ''c.d'') (Suc (Suc 0)) Undefined (Value 5)
       (Function (\<lambda>next r p. next (Function counter) p)) (Undefined :: (unit, unit) arg)
     = Inr (\<lparr>store_dispatch = dispatch, store_subscribe = subscribe,
             store_getState = getState,
             store_replaceReducer = replaceReducer (ActionTypes ''a.b'' ''c.d'')\<rparr>,
            counter_cells\<lparr>currentState := Some 5\<rparr>) \<and>
   createStore (ActionTypes ''a.b'' ''c.d'') (Suc (Suc 0)) Undefined
       (Function (\<lambda>next r p. next (Function counter) p)) Undefined (Undefined :: (unit, unit) arg)
     = Inr (\<lparr>store_dispatch = dispatch, store_subscribe = subscribe,
             store_getState = getState,
             store_replaceReducer = replaceReducer (ActionTypes ''a.b'' ''c.d'')\<rparr>,
            counter_cells)"
proof -
  let ?ats = "ActionTypes ''a.b'' ''c.d''"
  let ?e = "(\<lambda>next r p. next (Function counter) p) :: (int, unit) enhancer"
  have h: "\<not> is_function (Value 5 :: (int, (int, unit) enhancer) arg) \<and>
           \<not> is_function (Undefined :: (unit, unit) arg)" by simp
  have base: "createStore ?ats (Suc (Suc 0)) (Function counter) (slot_of p) Undefined
                (Undefined :: (unit, unit) arg)
              = Inr (\<lparr>store_dispatch = dispatch, store_subscribe = subscribe,
                       store_getState = getState, store_replaceReducer = replaceReducer ?ats\<rparr>,
                     counter_cells\<lparr>currentState := Some (case p of None \<Rightarrow> 0 | Some k \<Rightarrow> k)\<rparr>)"
    for p
    by (cases p)
      (simp_all add: createStore_def createStore_base_def counter_cells_def counter_def
        ActionTypes_def)
  from createStore_with_enhancer [of "Value 5" "Undefined :: (unit, unit) arg" ?ats
      "Suc (Suc 0)" Undefined ?e] h base [of "Some 5"] base [of None]
  show ?thesis by (simp add: counter_cells_def)
qed

theorem middleware_order_witness:
  "createStore_base (ActionTypes ''a.b'' ''c.d'') (Suc (Suc 0)) (Function counter) None
     = Inr (\<lparr>store_dispatch = dispatch, store_subscribe = subscribe,
             store_getState = getState,
             store_replaceReducer = replaceReducer (ActionTypes ''a.b'' ''c.d'')\<rparr>, counter_cells) \<and>
   \<not> dispatches_on_setup (tap (mark 1)) \<and> \<not> dispatches_on_setup (tap (mark 2)) \<and>
   (case applyMiddleware [tap (mark 1), tap (mark 2)]
           (createStore_base (ActionTypes ''a.b'' ''c.d'') (Suc (Suc 0))) (Function counter) None of
      Inl e \<Rightarrow> False
    | Inr (store', st) \<Rightarrow>
        st = counter_cells \<and>
        store_dispatch store' (Suc (Suc 0)) (act ''inc'') st
          = (Inr (act ''inc''),
             counter_cells\<lparr>currentState := Some 1, invoked := [Listener 1 [], Listener 2 []]\<rparr>))"
proof -
  let ?ats = "ActionTypes ''a.b'' ''c.d''"
  let ?store = "\<lparr>store_dispatch = dispatch, store_subscribe = subscribe,
             store_getState = getState,
             store_replaceReducer = replaceReducer ?ats\<rparr> :: (int, unit) Store"
  have h1: "createStore_base ?ats (Suc (Suc 0)) (Function counter) None = Inr (?store, counter_cells)"
    by (simp add: createStore_base_def counter_cells_def counter_def ActionTypes_def)
  have h2: "\<not> dispatches_on_setup (tap (mark 1))" by (simp add: tap_def)
  have h3: "\<not> dispatches_on_setup (tap (mark 2))" by (simp add: tap_def)
  from middleware_order [where createStore' = "createStore_base ?ats (Suc (Suc 0))"
      and r = "Function counter" and p = None and store = ?store and st = counter_cells
      and ?m1.0 = "tap (mark 1)" and ?m2.0 = "tap (mark 2)" and n = "Suc 0" and ?f1.0 = "mark 1"
      and ?f2.0 = "mark 2" and a = "act ''inc''" and ?st0.0 = counter_cells, OF h1 h2 h3]
  obtain store' where
    a: "applyMiddleware [tap (mark 1), tap (mark 2)] (createStore_base ?ats (Suc (Suc 0)))
          (Function counter) None = Inr (store', counter_cells)"
    and d: "store_dispatch store' (Suc (Suc 0)) (act ''inc'') counter_cells
              = store_dispatch ?store (Suc (Suc 0)) (act ''inc'')
                  (mark 2 (act ''inc'') (mark 1 (act ''inc'') counter_cells))"
    by auto
  have "store_dispatch ?store (Suc (Suc 0)) (act ''inc'')
                  (mark 2 (act ''inc'') (mark 1 (act ''inc'') counter_cells))
        = (Inr (act ''inc''),
             counter_cells\<lparr>currentState := Some 1, invoked := [Listener 1 [], Listener 2 []]\<rparr>)"
    by (simp add: mark_def act_def counter_cells_def counter_def)
  with a d h1 h2 h3 show ?thesis by simp
qed

section \<open>Arrays\<close>

lemma indexOf_member:
  "x \<in> set xs \<Longrightarrow> 0 \<le> indexOf xs x \<and> indexOf xs x < int (length xs)"
  by (induction xs) (auto simp: Let_def)

lemma splice1_Cons:
  "0 \<le> r \<Longrightarrow> splice1 (r + 1) (y # ys) = y # splice1 r ys"
  by (auto simp: splice1_def Let_def nat_add_distrib min_def)

lemma splice1_indexOf:
  "x \<in> set xs \<Longrightarrow> splice1 (indexOf xs x) xs = remove1 x xs"
proof (induction xs)
  case Nil
  then show ?case by simp
next
  case (Cons y ys)
  show ?case
  proof (cases "y = x")
    case True
    then show ?thesis by (simp add: splice1_def)
  next
    case False
    with Cons.prems have mem: "x \<in> set ys" by simp
    with indexOf_member have "0 \<le> indexOf ys x" by fastforce
    with False mem Cons.IH show ?thesis by (simp add: Let_def splice1_Cons)
  qed
qed

section \<open>Frozen arrays stay as they are\<close>

text \<open>
  No store function writes to a frozen array, and each leaves it frozen: a mutation goes
  to the array \<^verbatim>\<open>nextListeners\<close> refers to, after \<^verbatim>\<open>ensureCanMutateNextListeners\<close> has
  replaced that array by a copy if \<^verbatim>\<open>currentListeners\<close> refers to it too.
\<close>

lemma grows_refl: "grows st st"
  by (simp add: grows_def)

lemma grows_trans: "grows st st1 \<Longrightarrow> grows st1 st2 \<Longrightarrow> grows st st2"
  unfolding grows_def by (metis prefix_order.order_trans)

lemma grows_flag: "grows st (st\<lparr>isDispatching := b\<rparr>)"
  by (simp add: grows_def frozen_def)

lemma grows_state: "grows st (st\<lparr>currentState := s\<rparr>)"
  by (simp add: grows_def frozen_def)

lemma grows_sync: "grows st (st\<lparr>currentListeners := Some (nextListeners st)\<rparr>)"
  by (auto simp: grows_def frozen_def)

lemma grows_invoked: "grows st (st\<lparr>invoked := invoked st @ ls\<rparr>)"
  by (simp add: grows_def frozen_def)

lemma grows_getState: "grows st (snd (getState st))"
  by (simp add: getState_def grows_refl)

lemma ensure_fields [simp]:
  "invoked (ensureCanMutateNextListeners st) = invoked st"
  "subscriptions (ensureCanMutateNextListeners st) = subscriptions st"
  "currentListeners (ensureCanMutateNextListeners st) = currentListeners st"
  "currentState (ensureCanMutateNextListeners st) = currentState st"
  "currentReducer (ensureCanMutateNextListeners st) = currentReducer st"
  "isDispatching (ensureCanMutateNextListeners st) = isDispatching st"
  by (simp_all add: ensureCanMutateNextListeners_def)

lemma ensure_listeners_of [simp]:
  "listeners_of (ensureCanMutateNextListeners st) = listeners_of st"
  by (simp add: ensureCanMutateNextListeners_def listeners_of_def)

lemma ensure_frozen:
  assumes "frozen st p"
  shows "frozen (ensureCanMutateNextListeners st) p"
    and "arrays (ensureCanMutateNextListeners st) ! p = arrays st ! p"
    and "p \<noteq> nextListeners (ensureCanMutateNextListeners st)"
    and "p < length (arrays (ensureCanMutateNextListeners st))"
proof -
  from assms have p: "p < length (arrays st)"
    and q: "p = nextListeners st \<Longrightarrow> currentListeners st = Some p"
    by (simp_all add: frozen_def)
  show "frozen (ensureCanMutateNextListeners st) p"
  proof (cases "currentListeners st = Some (nextListeners st)")
    case True
    with p show ?thesis by (simp add: ensureCanMutateNextListeners_def frozen_def)
  next
    case False
    with assms show ?thesis by (simp add: ensureCanMutateNextListeners_def)
  qed
  show "arrays (ensureCanMutateNextListeners st) ! p = arrays st ! p"
    using p by (simp add: ensureCanMutateNextListeners_def nth_append)
  show "p \<noteq> nextListeners (ensureCanMutateNextListeners st)"
  proof (cases "currentListeners st = Some (nextListeners st)")
    case True
    with p show ?thesis by (simp add: ensureCanMutateNextListeners_def)
  next
    case False
    with q show ?thesis by (auto simp: ensureCanMutateNextListeners_def)
  qed
  show "p < length (arrays (ensureCanMutateNextListeners st))"
    using p by (simp add: ensureCanMutateNextListeners_def)
qed

lemma frozen_subscriptions [simp]: "frozen (st\<lparr>subscriptions := v\<rparr>) p = frozen st p"
  by (simp add: frozen_def)

lemma frozen_invoked [simp]: "frozen (st\<lparr>invoked := v\<rparr>) p = frozen st p"
  by (simp add: frozen_def)

lemma mutate_frozen:
  assumes "frozen st p" and "p \<noteq> nextListeners st"
  shows "frozen (st\<lparr>arrays := (arrays st)[nextListeners st := v]\<rparr>) p"
    and "frozen (st\<lparr>arrays := (arrays st)[nextListeners st := v], currentListeners := c\<rparr>) p"
    and "(arrays st)[nextListeners st := v] ! p = arrays st ! p"
  using assms by (simp_all add: frozen_def)

lemma subscribe_idle:
  "\<not> isDispatching st \<Longrightarrow>
   subscribe (Function l) st =
     (Inr (length (subscriptions st)),
      (ensureCanMutateNextListeners (st\<lparr>subscriptions := subscriptions st @ [(l, True)]\<rparr>))
        \<lparr>arrays := (arrays (ensureCanMutateNextListeners
                        (st\<lparr>subscriptions := subscriptions st @ [(l, True)]\<rparr>)))
           [nextListeners (ensureCanMutateNextListeners
                        (st\<lparr>subscriptions := subscriptions st @ [(l, True)]\<rparr>)) :=
              listeners_of (ensureCanMutateNextListeners
                        (st\<lparr>subscriptions := subscriptions st @ [(l, True)]\<rparr>)) @ [l]]\<rparr>)"
  by (simp add: subscribe_def Let_def listeners_of_def)

lemma unsubscribe_idle:
  "\<not> isDispatching st \<Longrightarrow> k < length (subscriptions st) \<Longrightarrow> snd (subscriptions st ! k) \<Longrightarrow>
   unsubscribe k st =
     (Inr (),
      (ensureCanMutateNextListeners
         (st\<lparr>subscriptions := (subscriptions st)[k := (fst (subscriptions st ! k), False)]\<rparr>))
        \<lparr>arrays := (arrays (ensureCanMutateNextListeners
             (st\<lparr>subscriptions := (subscriptions st)[k := (fst (subscriptions st ! k), False)]\<rparr>)))
           [nextListeners (ensureCanMutateNextListeners
             (st\<lparr>subscriptions := (subscriptions st)[k := (fst (subscriptions st ! k), False)]\<rparr>)) :=
              splice1 (indexOf (listeners_of (ensureCanMutateNextListeners
             (st\<lparr>subscriptions := (subscriptions st)[k := (fst (subscriptions st ! k), False)]\<rparr>)))
                 (fst (subscriptions st ! k)))
               (listeners_of (ensureCanMutateNextListeners
             (st\<lparr>subscriptions := (subscriptions st)[k := (fst (subscriptions st ! k), False)]\<rparr>)))],
          currentListeners := None\<rparr>)"
  by (simp add: unsubscribe_def Let_def listeners_of_def)

lemma unsubscribe_noop:
  "\<not> (k < length (subscriptions st) \<and> snd (subscriptions st ! k) \<and> \<not> isDispatching st) \<Longrightarrow>
   snd (unsubscribe k st) = st"
  by (simp add: unsubscribe_def Let_def)

lemma grows_subscribe: "grows st (snd (subscribe x st))"
proof (cases x)
  case (Function l)
  show ?thesis
  proof (cases "isDispatching st")
    case True
    with Function show ?thesis by (simp add: subscribe_def grows_refl)
  next
    case False
    let ?st1 = "st\<lparr>subscriptions := subscriptions st @ [(l, True)]\<rparr>"
    have "frozen (snd (subscribe x st)) p \<and> arrays (snd (subscribe x st)) ! p = arrays st ! p"
      if "frozen st p" for p
    proof -
      from that have f1: "frozen ?st1 p" by simp
      from ensure_frozen [OF f1] mutate_frozen(1,3) [OF ensure_frozen(1,3) [OF f1]]
      show ?thesis
        unfolding Function subscribe_idle [OF False] by simp
    qed
    moreover have "invoked (snd (subscribe x st)) = invoked st"
      unfolding Function subscribe_idle [OF False] by simp
    moreover have "currentReducer (snd (subscribe x st)) = currentReducer st"
      unfolding Function subscribe_idle [OF False] by simp
    ultimately show ?thesis by (simp add: grows_def)
  qed
qed (simp_all add: subscribe_def grows_refl)

lemma grows_unsubscribe: "grows st (snd (unsubscribe k st))"
proof (cases "k < length (subscriptions st) \<and> snd (subscriptions st ! k) \<and> \<not> isDispatching st")
  case False
  then show ?thesis by (simp add: unsubscribe_noop grows_refl)
next
  case True
  then have a: "\<not> isDispatching st" and b: "k < length (subscriptions st)"
    and c: "snd (subscriptions st ! k)" by simp_all
  let ?st1 = "st\<lparr>subscriptions := (subscriptions st)[k := (fst (subscriptions st ! k), False)]\<rparr>"
  have "frozen (snd (unsubscribe k st)) p \<and> arrays (snd (unsubscribe k st)) ! p = arrays st ! p"
    if "frozen st p" for p
  proof -
    from that have f1: "frozen ?st1 p" by simp
    from ensure_frozen [OF f1] mutate_frozen(2,3) [OF ensure_frozen(1,3) [OF f1]]
    show ?thesis
      unfolding unsubscribe_idle [OF a b c] by simp
  qed
  moreover have "invoked (snd (unsubscribe k st)) = invoked st"
    unfolding unsubscribe_idle [OF a b c] by simp
  moreover have "currentReducer (snd (unsubscribe k st)) = currentReducer st"
    unfolding unsubscribe_idle [OF a b c] by simp
  ultimately show ?thesis by (simp add: grows_def)
qed

text \<open>
  The three mutually recursive functions, by induction on the stack budget: a run of
  callbacks with budget \<open>n\<close> needs \<open>dispatch\<close> with the same budget, \<open>dispatch\<close> and the
  loop need the others with a smaller one.
\<close>

lemma grows_run_cmds_step:
  fixes st :: "('s, 'p) cells"
  assumes D: "\<And>v (st :: ('s, 'p) cells). grows st (snd (dispatch n v st))"
  shows "grows st (snd (run_cmds n cs st))"
proof (induction cs arbitrary: st)
  case Nil
  show ?case by (simp add: grows_refl)
next
  case (Cons c cs)
  define step where "step =
    (case c of
       CallDispatch v \<Rightarrow>
         (case dispatch n v st of
            (Inl e, st1) \<Rightarrow> (Inl e, st1)
          | (Inr a, st1) \<Rightarrow> (Inr (), st1))
     | CallGetState \<Rightarrow>
         (case getState st of
            (Inl e, st1) \<Rightarrow> (Inl e, st1)
          | (Inr s, st1) \<Rightarrow> (Inr (), st1))
     | CallSubscribe l \<Rightarrow>
         (case subscribe (Function l :: (unit, 'p listener) arg) st of
            (Inl e, st1) \<Rightarrow> (Inl e, st1)
          | (Inr k, st1) \<Rightarrow> (Inr (), st1))
     | CallUnsubscribe k \<Rightarrow> unsubscribe k st
     | ThrowError msg \<Rightarrow> (Inl (Thrown msg), st))"
  have g: "grows st (snd step)"
  proof (cases c)
    case (CallDispatch v)
    have "snd step = snd (dispatch n v st)"
      by (simp add: step_def CallDispatch split: prod.splits sum.splits)
    with D show ?thesis by simp
  next
    case CallGetState
    then show ?thesis by (simp add: step_def getState_def grows_refl)
  next
    case (CallSubscribe l)
    have "snd step = snd (subscribe (Function l :: (unit, 'p listener) arg) st)"
      by (simp add: step_def CallSubscribe split: prod.splits sum.splits)
    with grows_subscribe show ?thesis by simp
  next
    case (CallUnsubscribe k)
    with grows_unsubscribe show ?thesis by (simp add: step_def)
  next
    case (ThrowError msg)
    then show ?thesis by (simp add: step_def grows_refl)
  qed
  have unfold: "run_cmds n (c # cs) st =
      (case step of (Inl e, st1) \<Rightarrow> (Inl e, st1) | (Inr u, st1) \<Rightarrow> run_cmds n cs st1)"
    by (simp add: step_def)
  obtain r st1 where s: "step = (r, st1)" by (cases step)
  show ?case
  proof (cases r)
    case (Inl e)
    with s g show ?thesis unfolding unfold by simp
  next
    case (Inr u)
    with s have "snd (run_cmds n (c # cs) st) = snd (run_cmds n cs st1)"
      unfolding unfold by simp
    with g s Cons.IH [of st1] show ?thesis by (auto intro: grows_trans)
  qed
qed

lemma grows_notify_step:
  fixes st :: "('s, 'p) cells"
  assumes R: "\<And>cs (st :: ('s, 'p) cells). grows st (snd (run_cmds n cs st))"
    and N: "\<And>p i (st :: ('s, 'p) cells). grows st (snd (notify n p i st))"
  shows "grows st (snd (notify (Suc n) p i st))"
proof (cases "i < length (arrays st ! p)")
  case False
  then show ?thesis by (simp add: grows_refl)
next
  case True
  let ?l = "arrays st ! p ! i"
  let ?sta = "st\<lparr>invoked := invoked st @ [?l]\<rparr>"
  obtain r st1 where r: "run_cmds n (body ?l) ?sta = (r, st1)"
    by (cases "run_cmds n (body ?l) ?sta")
  have g1: "grows st st1"
    using grows_trans [OF grows_invoked [of st "[?l]"] R [of ?sta "body ?l"]] r by simp
  show ?thesis
  proof (cases r)
    case (Inl e)
    with True r g1 show ?thesis by (simp add: Let_def)
  next
    case (Inr u)
    with True r have "snd (notify (Suc n) p i st) = snd (notify n p (Suc i) st1)"
      by (simp add: Let_def)
    with g1 N [of st1 p "Suc i"] show ?thesis by (auto intro: grows_trans)
  qed
qed

lemma grows_dispatch_step:
  fixes st :: "('s, 'p) cells"
  assumes R: "\<And>cs (st :: ('s, 'p) cells). grows st (snd (run_cmds n cs st))"
    and N: "\<And>p i (st :: ('s, 'p) cells). grows st (snd (notify n p i st))"
  shows "grows st (snd (dispatch (Suc n) v st))"
proof (cases "isPlainObject v \<and> atype v \<noteq> None \<and> \<not> isDispatching st")
  case False
  then show ?thesis by (auto simp: grows_refl)
next
  case True
  then have a: "isPlainObject v" "atype v \<noteq> None" "\<not> isDispatching st" by simp_all
  obtain cs fin where o: "currentReducer st (currentState st) v = Outcome cs fin"
    by (cases "currentReducer st (currentState st) v")
  let ?sta = "st\<lparr>isDispatching := True\<rparr>"
  obtain r st1 where r: "run_cmds n cs ?sta = (r, st1)" by (cases "run_cmds n cs ?sta")
  have g1: "grows st st1"
    using grows_trans [OF grows_flag [of st True] R [of ?sta cs]] r by simp
  have g2: "grows st (st1\<lparr>isDispatching := False\<rparr>)"
    using grows_trans [OF g1 grows_flag] .
  show ?thesis
  proof (cases r)
    case (Inl e)
    with o r g2 show ?thesis by (simp add: a)
  next
    case u: (Inr u)
    show ?thesis
    proof (cases fin)
      case (Inl msg)
      with o r u g2 show ?thesis by (simp add: a)
    next
      case (Inr s)
      let ?st2 = "st1\<lparr>currentState := Some s, isDispatching := False\<rparr>"
      let ?st3 = "?st2\<lparr>currentListeners := Some (nextListeners ?st2)\<rparr>"
      obtain r' st4 where n4: "notify n (nextListeners ?st2) 0 ?st3 = (r', st4)"
        by (cases "notify n (nextListeners ?st2) 0 ?st3")
      have "grows st1 ?st2" using grows_trans [OF grows_state grows_flag] .
      then have "grows st1 ?st3" using grows_trans [OF _ grows_sync] by blast
      with g1 have "grows st ?st3" by (rule grows_trans)
      with N [of ?st3 "nextListeners ?st2" 0] n4 have g4: "grows st st4"
        by (auto intro: grows_trans)
      have "snd (dispatch (Suc n) v st) = st4"
        using o r u Inr n4 by (cases r') (simp_all add: a Let_def)
      with g4 show ?thesis by simp
    qed
  qed
qed

lemma grows_all:
  "(\<forall>v (st :: ('s, 'p) cells). grows st (snd (dispatch n v st))) \<and>
   (\<forall>p i (st :: ('s, 'p) cells). grows st (snd (notify n p i st))) \<and>
   (\<forall>cs (st :: ('s, 'p) cells). grows st (snd (run_cmds n cs st)))"
proof (induction n)
  case 0
  have d: "grows st (snd (dispatch 0 v st))" for v and st :: "('s, 'p) cells"
    by (simp add: grows_refl)
  have "grows st (snd (notify 0 p i st))" for p i and st :: "('s, 'p) cells"
    by (simp add: grows_refl)
  with d grows_run_cmds_step [of 0] show ?case by blast
next
  case (Suc n)
  then have d: "grows st (snd (dispatch (Suc n) v st))" for v and st :: "('s, 'p) cells"
    using grows_dispatch_step by blast
  from Suc have "grows st (snd (notify (Suc n) p i st))" for p i and st :: "('s, 'p) cells"
    using grows_notify_step by blast
  with d grows_run_cmds_step [of "Suc n"] show ?case by blast
qed

lemma grows_dispatch: "grows st (snd (dispatch n v st))"
  and grows_notify: "grows st (snd (notify n p i st))"
  and grows_run_cmds: "grows st (snd (run_cmds n cs st))"
  using grows_all [of n] by blast+

section \<open>What a dispatch notifies\<close>

text \<open>
  The loop over a frozen array, when it returns, has called the listeners of the array
  from its index on, in order; calls made by nested dispatches may lie in between.
\<close>

lemma notify_invokes:
  fixes st :: "('s, 'p) cells"
  assumes "frozen st p" and "notify n p i st = (Inr u, st')"
  shows "\<exists>ev. invoked st' = invoked st @ ev \<and> subseq (drop i (arrays st ! p)) ev"
  using assms
proof (induction n arbitrary: i st)
  case 0
  then show ?case by simp
next
  case (Suc n)
  show ?case
  proof (cases "i < length (arrays st ! p)")
    case False
    with Suc.prems(2) show ?thesis by simp
  next
    case True
    let ?l = "arrays st ! p ! i"
    let ?sta = "st\<lparr>invoked := invoked st @ [?l]\<rparr>"
    obtain r st1 where r: "run_cmds n (body ?l) ?sta = (r, st1)"
      by (cases "run_cmds n (body ?l) ?sta")
    from True r Suc.prems(2) obtain w where w: "r = Inr w"
      by (cases r) (simp_all add: Let_def)
    with True r Suc.prems(2) have rest: "notify n p (Suc i) st1 = (Inr u, st')"
      by (simp add: Let_def)
    have g: "grows ?sta st1" using grows_run_cmds [of ?sta n "body ?l"] r by simp
    from Suc.prems(1) have "frozen ?sta p" by simp
    with g have f1: "frozen st1 p" and a1: "arrays st1 ! p = arrays st ! p"
      by (simp_all add: grows_def)
    from g obtain ev1 where ev1: "invoked st1 = invoked st @ [?l] @ ev1"
      by (auto simp: grows_def prefix_def)
    from Suc.IH [OF f1 rest] obtain ev2 where ev2: "invoked st' = invoked st1 @ ev2"
      and s2: "subseq (drop (Suc i) (arrays st ! p)) ev2"
      by (auto simp: a1)
    have d: "drop i (arrays st ! p) = ?l # drop (Suc i) (arrays st ! p)"
      using True by (simp add: Cons_nth_drop_Suc)
    have "subseq (drop i (arrays st ! p)) (?l # ev1 @ ev2)"
      unfolding d using s2 by (simp add: list_emb_append2)
    moreover have "invoked st' = invoked st @ (?l # ev1 @ ev2)"
      by (simp add: ev1 ev2)
    ultimately show ?thesis by blast
  qed
qed

lemma watched_cells_reachable:
  "snd (subscribe (Function listener_C :: (unit, unit listener) arg)
     (snd (subscribe (Function listener_A :: (unit, unit listener) arg) counter_cells)))
   = watched_cells"
  by (simp add: subscribe_def ensureCanMutateNextListeners_def counter_cells_def
      watched_cells_def Let_def)

lemma chatty_cells_reachable:
  "snd (subscribe (Function listener_D :: (unit, unit listener) arg) counter_cells)
   = chatty_cells"
  by (simp add: subscribe_def ensureCanMutateNextListeners_def counter_cells_def
      chatty_cells_def Let_def)

text \<open>
  The loop of the source over a frozen array is the notification in the spec's words
  over what the array holds: the listeners' own calls leave a frozen array as it is.
\<close>

lemma notify_is_snapshot:
  fixes st :: "('s, 'p) cells"
  assumes "frozen st p"
  shows "notify n p i st = notify_snapshot n (drop i (arrays st ! p)) st"
  using assms
proof (induction n arbitrary: i st)
  case 0
  show ?case by simp
next
  case (Suc n)
  show ?case
  proof (cases "i < length (arrays st ! p)")
    case False
    then show ?thesis by simp
  next
    case True
    let ?l = "arrays st ! p ! i"
    let ?sta = "st\<lparr>invoked := invoked st @ [?l]\<rparr>"
    have d: "drop i (arrays st ! p) = ?l # drop (Suc i) (arrays st ! p)"
      using True by (simp add: Cons_nth_drop_Suc)
    obtain r st1 where r: "run_cmds n (body ?l) ?sta = (r, st1)"
      by (cases "run_cmds n (body ?l) ?sta")
    have g: "grows ?sta st1" using grows_run_cmds [of ?sta n "body ?l"] r by simp
    from Suc.prems have "frozen ?sta p" by simp
    with g have f1: "frozen st1 p" and a1: "arrays st1 ! p = arrays st ! p"
      by (simp_all add: grows_def)
    show ?thesis
    proof (cases r)
      case (Inl e)
      with True r show ?thesis unfolding d by (simp add: Let_def)
    next
      case (Inr u)
      with True r have "notify (Suc n) p i st = notify n p (Suc i) st1"
        by (simp add: Let_def)
      also have "\<dots> = notify_snapshot n (drop (Suc i) (arrays st ! p)) st1"
        using Suc.IH [OF f1, of "Suc i"] by (simp add: a1)
      also have "\<dots> = notify_snapshot (Suc n) (drop i (arrays st ! p)) st"
        unfolding d using r Inr by simp
      finally show ?thesis .
    qed
  qed
qed

lemma dispatch_returns:
  fixes st :: "('s, 'p) cells"
  assumes "dispatch (Suc n) a st = (Inr r, st')"
  shows "isPlainObject a \<and> atype a \<noteq> None \<and> \<not> isDispatching st \<and> r = a \<and>
         (\<exists>cs s. currentReducer st (currentState st) a = Outcome cs (Inr s) \<and>
            fst (run_cmds n cs (st\<lparr>isDispatching := True\<rparr>)) = Inr () \<and>
            notify n (nextListeners st) 0
              (st\<lparr>currentState := Some s, isDispatching := False,
                   currentListeners := Some (nextListeners st)\<rparr>) = (Inr (), st'))"
proof -
  from assms have a: "isPlainObject a" "atype a \<noteq> None" "\<not> isDispatching st"
    by (auto split: if_splits)
  obtain cs fin where o: "currentReducer st (currentState st) a = Outcome cs fin"
    by (cases "currentReducer st (currentState st) a")
  let ?sta = "st\<lparr>isDispatching := True\<rparr>"
  obtain q st1 where q: "run_cmds n cs ?sta = (q, st1)" by (cases "run_cmds n cs ?sta")
  have "snd (run_cmds n cs ?sta) = ?sta" by (rule run_cmds_while_dispatching) simp
  with q have st1: "st1 = ?sta" by simp
  from assms o q obtain w where w: "q = Inr w" by (cases q) (simp_all add: a)
  from assms o q w obtain s where s: "fin = Inr s" by (cases fin) (simp_all add: a)
  let ?st3 = "st\<lparr>currentState := Some s, isDispatching := False,
                  currentListeners := Some (nextListeners st)\<rparr>"
  obtain q' st4 where n4: "notify n (nextListeners st) 0 ?st3 = (q', st4)"
    by (cases "notify n (nextListeners st) 0 ?st3")
  from assms o q w s st1 n4 have "q' = Inr () \<and> st4 = st' \<and> r = a"
    by (cases q') (simp_all add: a Let_def)
  with n4 o s q w a show ?thesis by simp
qed

lemma dispatch_is_snapshot:
  fixes st :: "('s, 'p) cells"
  assumes "isPlainObject a" and "atype a \<noteq> None" and "\<not> isDispatching st"
    and "nextListeners st < length (arrays st)"
    and "currentReducer st (currentState st) a = Outcome cs (Inr s)"
    and "fst (run_cmds n cs (st\<lparr>isDispatching := True\<rparr>)) = Inr ()"
  shows "dispatch (Suc n) a st =
           (case notify_snapshot n (listeners_of st)
                   (st\<lparr>currentState := Some s, isDispatching := False,
                        currentListeners := Some (nextListeners st)\<rparr>) of
              (Inl e, st') \<Rightarrow> (Inl e, st')
            | (Inr u, st') \<Rightarrow> (Inr a, st'))"
proof -
  let ?sta = "st\<lparr>isDispatching := True\<rparr>"
  let ?st3 = "st\<lparr>currentState := Some s, isDispatching := False,
                  currentListeners := Some (nextListeners st)\<rparr>"
  have "snd (run_cmds n cs ?sta) = ?sta" by (rule run_cmds_while_dispatching) simp
  with assms(6) have q: "run_cmds n cs ?sta = (Inr (), ?sta)"
    by (cases "run_cmds n cs ?sta") simp
  have "frozen ?st3 (nextListeners st)" using assms(4) by (simp add: frozen_def)
  from notify_is_snapshot [OF this, of n 0]
  have "notify n (nextListeners st) 0 ?st3 = notify_snapshot n (listeners_of st) ?st3"
    by (simp add: listeners_of_def)
  then show ?thesis using assms(5) q by (simp add: assms(1,2,3) Let_def)
qed


section \<open>Listeners that only subscribe and unsubscribe\<close>

text \<open>
  On an idle store with consistent cells, \<^verbatim>\<open>subscribe\<close> and an unsubscribe function do
  to the registered listeners what the subscription protocol says, and keep the cells
  consistent.
\<close>

lemma active_append [simp]: "active (xs @ ys) = active xs @ active ys"
  by (simp add: active_def)

lemma active_Cons [simp]: "active ((l, b) # xs) = (if b then l # active xs else active xs)"
  by (simp add: active_def)

lemma active_Nil [simp]: "active [] = []"
  by (simp add: active_def)

lemma active_member:
  "k < length subs \<Longrightarrow> snd (subs ! k) \<Longrightarrow> fst (subs ! k) \<in> set (active subs)"
proof -
  assume k: "k < length subs" and s: "snd (subs ! k)"
  then have "subs ! k \<in> set (filter snd subs)" by simp
  then show ?thesis unfolding active_def by (metis image_eqI list.set_map)
qed

lemma active_update:
  assumes "k < length subs" and "snd (subs ! k)"
  shows "mset (active (subs[k := (fst (subs ! k), False)]))
           = mset (active subs) - {#fst (subs ! k)#}"
proof -
  have e: "(fst (subs ! k), True) = subs ! k"
    using assms(2) by (cases "subs ! k") simp
  have a: "subs = take k subs @ (fst (subs ! k), True) # drop (Suc k) subs"
    by (subst e) (rule id_take_nth_drop [OF assms(1)])
  have b: "subs[k := (fst (subs ! k), False)]
             = take k subs @ (fst (subs ! k), False) # drop (Suc k) subs"
    using assms(1) by (rule upd_conv_take_nth_drop)
  have "mset (active subs)
          = mset (active (take k subs)) + {#fst (subs ! k)#} + mset (active (drop (Suc k) subs))"
    by (subst a) simp
  moreover have "mset (active (subs[k := (fst (subs ! k), False)]))
          = mset (active (take k subs)) + mset (active (drop (Suc k) subs))"
    by (subst b) simp
  ultimately show ?thesis by simp
qed

lemma ensure_wf:
  "nextListeners st < length (arrays st) \<Longrightarrow>
   nextListeners (ensureCanMutateNextListeners st)
     < length (arrays (ensureCanMutateNextListeners st))"
  by (simp add: ensureCanMutateNextListeners_def)

lemma listeners_of_mutate:
  "nextListeners st < length (arrays st) \<Longrightarrow>
   listeners_of (st\<lparr>arrays := (arrays st)[nextListeners st := v]\<rparr>) = v"
  "nextListeners st < length (arrays st) \<Longrightarrow>
   listeners_of (st\<lparr>arrays := (arrays st)[nextListeners st := v], currentListeners := c\<rparr>) = v"
  by (simp_all add: listeners_of_def)

lemma listeners_of_fields [simp]:
  "listeners_of (st\<lparr>subscriptions := v\<rparr>) = listeners_of st"
  "listeners_of (st\<lparr>invoked := w\<rparr>) = listeners_of st"
  "listeners_of (st\<lparr>currentReducer := r\<rparr>) = listeners_of st"
  "listeners_of (st\<lparr>currentState := s\<rparr>) = listeners_of st"
  "listeners_of (st\<lparr>isDispatching := b\<rparr>) = listeners_of st"
  "listeners_of (st\<lparr>currentListeners := c\<rparr>) = listeners_of st"
  by (simp_all add: listeners_of_def)

lemma subscribe_quiet:
  fixes st :: "('s, 'p) cells"
  assumes idle: "\<not> isDispatching st" and con: "consistent st"
  shows "\<exists>st'. subscribe (Function l) st = (Inr (length (subscriptions st)), st') \<and>
           same_core st st' \<and> listeners_of st' = listeners_of st @ [l] \<and>
           subscriptions st' = subscriptions st @ [(l, True)] \<and> consistent st'"
proof -
  let ?st1 = "st\<lparr>subscriptions := subscriptions st @ [(l, True)]\<rparr>"
  let ?st2 = "ensureCanMutateNextListeners ?st1"
  let ?st3 = "?st2\<lparr>arrays := (arrays ?st2)[nextListeners ?st2 := listeners_of ?st2 @ [l]]\<rparr>"
  from con have wf1: "nextListeners ?st1 < length (arrays ?st1)" by (simp add: consistent_def)
  note wf2 = ensure_wf [OF wf1]
  have l2: "listeners_of ?st2 = listeners_of st" by simp
  have l3: "listeners_of ?st3 = listeners_of st @ [l]"
    using listeners_of_mutate(1) [OF wf2] l2 by simp
  have s3: "subscriptions ?st3 = subscriptions st @ [(l, True)]" by simp
  have core: "same_core st ?st3" by (simp add: same_core_def)
  have wf3: "nextListeners ?st3 < length (arrays ?st3)" using wf2 by simp
  have "mset (listeners_of ?st3) = mset (active (subscriptions ?st3))"
    using con unfolding l3 s3 by (simp add: consistent_def)
  with wf3 have "consistent ?st3" unfolding consistent_def by blast
  with l3 s3 core subscribe_idle [OF idle, of l] show ?thesis by blast
qed

lemma unsubscribe_quiet:
  fixes st :: "('s, 'p) cells"
  assumes idle: "\<not> isDispatching st" and con: "consistent st"
    and k: "k < length (subscriptions st)"
  shows "\<exists>st'. unsubscribe k st = (Inr (), st') \<and> same_core st st' \<and>
           (listeners_of st', subscriptions st')
             = registry_step (CallUnsubscribe k) (listeners_of st, subscriptions st) \<and>
           consistent st'"
proof (cases "snd (subscriptions st ! k)")
  case False
  with k have "unsubscribe k st = (Inr (), st)" by (simp add: unsubscribe_def)
  with False con show ?thesis by (simp add: same_core_def)
next
  case True
  let ?l = "fst (subscriptions st ! k)"
  let ?st1 = "st\<lparr>subscriptions := (subscriptions st)[k := (?l, False)]\<rparr>"
  let ?st2 = "ensureCanMutateNextListeners ?st1"
  let ?v = "splice1 (indexOf (listeners_of ?st2) ?l) (listeners_of ?st2)"
  let ?st3 = "?st2\<lparr>arrays := (arrays ?st2)[nextListeners ?st2 := ?v], currentListeners := None\<rparr>"
  from con have wf1: "nextListeners ?st1 < length (arrays ?st1)" by (simp add: consistent_def)
  note wf2 = ensure_wf [OF wf1]
  have l2: "listeners_of ?st2 = listeners_of st" by simp
  from con have m: "mset (listeners_of st) = mset (active (subscriptions st))"
    by (simp add: consistent_def)
  have "?l \<in> set (active (subscriptions st))" using k True by (rule active_member)
  with m have mem: "?l \<in> set (listeners_of st)" by (metis set_mset_mset)
  then have v: "?v = remove1 ?l (listeners_of st)" unfolding l2 by (rule splice1_indexOf)
  have l3: "listeners_of ?st3 = remove1 ?l (listeners_of st)"
    using listeners_of_mutate(2) [OF wf2] v by simp
  have s3: "subscriptions ?st3 = (subscriptions st)[k := (?l, False)]" by simp
  have core: "same_core st ?st3" by (simp add: same_core_def)
  have wf3: "nextListeners ?st3 < length (arrays ?st3)" using wf2 by simp
  have "mset (listeners_of ?st3) = mset (active (subscriptions ?st3))"
    unfolding l3 s3 using m active_update [OF k True] by simp
  with wf3 have c3: "consistent ?st3" unfolding consistent_def by blast
  have "(listeners_of ?st3, subscriptions ?st3)
          = registry_step (CallUnsubscribe k) (listeners_of st, subscriptions st)"
    unfolding l3 s3 using k True by simp
  with c3 core unsubscribe_idle [OF idle k True] show ?thesis by metis
qed

lemma consistent_invoked [simp]: "consistent (st\<lparr>invoked := v\<rparr>) = consistent st"
  by (simp add: consistent_def)

lemma same_core_trans: "same_core st st1 \<Longrightarrow> same_core st1 st2 \<Longrightarrow> same_core st st2"
  by (simp add: same_core_def)

lemma run_cmds_quiet:
  fixes st :: "('s, 'p) cells"
  assumes "\<not> isDispatching st" and "consistent st" and "list_all (is_quiet n0) cs"
    and "n0 \<le> length (subscriptions st)"
  shows "\<exists>st'. run_cmds n cs st = (Inr (), st') \<and> same_core st st' \<and>
           (listeners_of st', subscriptions st')
             = fold registry_step cs (listeners_of st, subscriptions st) \<and>
           consistent st' \<and> length (subscriptions st) \<le> length (subscriptions st')"
  using assms
proof (induction cs arbitrary: st)
  case Nil
  then show ?case by (simp add: same_core_def)
next
  case (Cons c cs)
  from Cons.prems(3) have qc: "is_quiet n0 c" and qcs: "list_all (is_quiet n0) cs" by simp_all
  have "\<exists>st1. run_cmds n (c # cs) st = run_cmds n cs st1 \<and> same_core st st1 \<and>
          (listeners_of st1, subscriptions st1)
            = registry_step c (listeners_of st, subscriptions st) \<and>
          consistent st1 \<and> length (subscriptions st) \<le> length (subscriptions st1)"
  proof (cases c)
    case (CallDispatch v)
    with qc show ?thesis by simp
  next
    case CallGetState
    with Cons.prems(1,2) show ?thesis
      by (intro exI [of _ st]) (simp add: getState_def same_core_def)
  next
    case (CallSubscribe l)
    from subscribe_quiet [OF Cons.prems(1,2), of l]
    obtain st1 where "subscribe (Function l :: (unit, 'p listener) arg) st
                        = (Inr (length (subscriptions st)), st1)"
      and "same_core st st1" and "listeners_of st1 = listeners_of st @ [l]"
      and "subscriptions st1 = subscriptions st @ [(l, True)]" and "consistent st1"
      by blast
    with CallSubscribe show ?thesis by (intro exI [of _ st1]) simp
  next
    case (CallUnsubscribe k)
    with qc Cons.prems(4) have k: "k < length (subscriptions st)" by simp
    from unsubscribe_quiet [OF Cons.prems(1,2) k]
    obtain st1 where u: "unsubscribe k st = (Inr (), st1)" and "same_core st st1"
      and r: "(listeners_of st1, subscriptions st1)
            = registry_step (CallUnsubscribe k) (listeners_of st, subscriptions st)"
      and "consistent st1"
      by blast
    moreover from r have "length (subscriptions st1) = length (subscriptions st)"
      by (simp split: if_splits)
    ultimately show ?thesis using CallUnsubscribe by (intro exI [of _ st1]) simp
  next
    case (ThrowError msg)
    with qc show ?thesis by simp
  qed
  then obtain st1 where e: "run_cmds n (c # cs) st = run_cmds n cs st1"
    and c1: "same_core st st1"
    and r1: "(listeners_of st1, subscriptions st1)
               = registry_step c (listeners_of st, subscriptions st)"
    and k1: "consistent st1" and n1: "length (subscriptions st) \<le> length (subscriptions st1)"
    by blast
  from c1 Cons.prems(1) have i1: "\<not> isDispatching st1" by (simp add: same_core_def)
  from n1 Cons.prems(4) have m1: "n0 \<le> length (subscriptions st1)" by simp
  from Cons.IH [OF i1 k1 qcs m1]
  obtain st' where "run_cmds n cs st1 = (Inr (), st')" and "same_core st1 st'"
    and "(listeners_of st', subscriptions st')
           = fold registry_step cs (listeners_of st1, subscriptions st1)"
    and "consistent st'" and "length (subscriptions st1) \<le> length (subscriptions st')"
    by blast
  with e c1 r1 n1 show ?case
    by (auto intro: same_core_trans)
qed

text \<open>
  The loop over a frozen array whose listeners are quiet returns, given a stack budget
  above the number of listeners left, and has called exactly those listeners.
\<close>

lemma notify_quiet:
  fixes st :: "('s, 'p) cells"
  assumes "\<not> isDispatching st" and "consistent st" and "frozen st p"
    and "\<forall>l \<in> set (drop i (arrays st ! p)). quiet_listener n0 l"
    and "n0 \<le> length (subscriptions st)"
    and "length (arrays st ! p) - i < n"
  shows "\<exists>st'. notify n p i st = (Inr (), st') \<and>
           invoked st' = invoked st @ drop i (arrays st ! p) \<and>
           currentState st' = currentState st \<and> currentReducer st' = currentReducer st \<and>
           \<not> isDispatching st' \<and>
           (listeners_of st', subscriptions st')
             = fold registry_step (concat (map body (drop i (arrays st ! p))))
                 (listeners_of st, subscriptions st) \<and>
           consistent st'"
  using assms
proof (induction n arbitrary: i st)
  case 0
  then show ?case by simp
next
  case (Suc n)
  let ?xs = "arrays st ! p"
  show ?case
  proof (cases "i < length ?xs")
    case False
    with Suc.prems(1,2) show ?thesis by (intro exI [of _ st]) simp
  next
    case True
    let ?l = "?xs ! i"
    let ?sta = "st\<lparr>invoked := invoked st @ [?l]\<rparr>"
    have d: "drop i ?xs = ?l # drop (Suc i) ?xs"
      using True by (simp add: Cons_nth_drop_Suc)
    from Suc.prems(4) have ql: "list_all (is_quiet n0) (body ?l)"
      and qr: "\<forall>l \<in> set (drop (Suc i) ?xs). quiet_listener n0 l"
      unfolding d by (simp_all add: quiet_listener_def)
    have ia: "\<not> isDispatching ?sta" using Suc.prems(1) by simp
    have ca: "consistent ?sta" using Suc.prems(2) by simp
    have na: "n0 \<le> length (subscriptions ?sta)" using Suc.prems(5) by simp
    from run_cmds_quiet [OF ia ca ql na, of n]
    obtain st1 where r: "run_cmds n (body ?l) ?sta = (Inr (), st1)"
      and c1: "same_core ?sta st1"
      and g1: "(listeners_of st1, subscriptions st1)
                 = fold registry_step (body ?l) (listeners_of st, subscriptions st)"
      and k1: "consistent st1"
      and n1: "length (subscriptions ?sta) \<le> length (subscriptions st1)"
      by auto
    have g: "grows ?sta st1" using grows_run_cmds [of ?sta n "body ?l"] r by simp
    from Suc.prems(3) have "frozen ?sta p" by simp
    with g have f1: "frozen st1 p" and a1: "arrays st1 ! p = ?xs"
      by (simp_all add: grows_def)
    from c1 Suc.prems(1) have i1: "\<not> isDispatching st1" by (simp add: same_core_def)
    from qr have q1: "\<forall>l \<in> set (drop (Suc i) (arrays st1 ! p)). quiet_listener n0 l"
      by (simp add: a1)
    from n1 Suc.prems(5) have m1: "n0 \<le> length (subscriptions st1)" by simp
    from Suc.prems(6) True have b1: "length (arrays st1 ! p) - Suc i < n" by (simp add: a1)
    from Suc.IH [OF i1 k1 f1 q1 m1 b1]
    obtain st' where r': "notify n p (Suc i) st1 = (Inr (), st')"
      and v': "invoked st' = invoked st1 @ drop (Suc i) ?xs"
      and s': "currentState st' = currentState st1"
      and u': "currentReducer st' = currentReducer st1"
      and i': "\<not> isDispatching st'"
      and g': "(listeners_of st', subscriptions st')
                 = fold registry_step (concat (map body (drop (Suc i) ?xs)))
                     (listeners_of st1, subscriptions st1)"
      and k': "consistent st'"
      unfolding a1 by blast
    have "notify (Suc n) p i st = (Inr (), st')"
      using True r r' by (simp add: Let_def)
    moreover have "invoked st' = invoked st @ drop i ?xs"
      using v' c1 unfolding d by (simp add: same_core_def)
    moreover have "currentState st' = currentState st" "currentReducer st' = currentReducer st"
      using s' u' c1 by (simp_all add: same_core_def)
    moreover have "(listeners_of st', subscriptions st')
        = fold registry_step (concat (map body (drop i ?xs))) (listeners_of st, subscriptions st)"
      unfolding d using g' g1 by simp
    ultimately show ?thesis using i' k' by blast
  qed
qed

lemma dispatch_quiet:
  fixes st :: "('s, 'p) cells"
  assumes "isPlainObject a" and "atype a \<noteq> None" and "\<not> isDispatching st"
    and "consistent st"
    and "currentReducer st (currentState st) a = Outcome [] (Inr s)"
    and "\<forall>l \<in> set (listeners_of st). quiet_listener (length (subscriptions st)) l"
    and "length (listeners_of st) + 2 \<le> n"
  shows "\<exists>st'. dispatch n a st = (Inr a, st') \<and>
           invoked st' = invoked st @ listeners_of st \<and>
           currentState st' = Some s \<and> currentReducer st' = currentReducer st \<and>
           \<not> isDispatching st' \<and>
           (listeners_of st', subscriptions st')
             = fold registry_step (concat (map body (listeners_of st)))
                 (listeners_of st, subscriptions st) \<and>
           consistent st'"
proof -
  from assms(7) obtain m where n: "n = Suc m" and m: "length (listeners_of st) < m"
    by (cases n) auto
  let ?p = "nextListeners st"
  let ?st3 = "st\<lparr>currentState := Some s, isDispatching := False,
                  currentListeners := Some ?p\<rparr>"
  have x: "arrays ?st3 ! ?p = listeners_of st" by (simp add: listeners_of_def)
  have i3: "\<not> isDispatching ?st3" by simp
  have c3: "consistent ?st3" using assms(4) by (simp add: consistent_def listeners_of_def)
  have f3: "frozen ?st3 ?p" using assms(4) by (simp add: frozen_def consistent_def)
  have q3: "\<forall>l \<in> set (drop 0 (arrays ?st3 ! ?p)). quiet_listener (length (subscriptions st)) l"
    using assms(6) unfolding x by simp
  have n3: "length (subscriptions st) \<le> length (subscriptions ?st3)" by simp
  have b3: "length (arrays ?st3 ! ?p) - 0 < m" using m unfolding x by simp
  from notify_quiet [OF i3 c3 f3 q3 n3 b3]
  obtain st' where r: "notify m ?p 0 ?st3 = (Inr (), st')"
    and v: "invoked st' = invoked ?st3 @ drop 0 (arrays ?st3 ! ?p)"
    and s': "currentState st' = currentState ?st3"
    and u': "currentReducer st' = currentReducer ?st3"
    and i': "\<not> isDispatching st'"
    and g': "(listeners_of st', subscriptions st')
               = fold registry_step (concat (map body (drop 0 (arrays ?st3 ! ?p))))
                   (listeners_of ?st3, subscriptions ?st3)"
    and k': "consistent st'"
    by blast
  have "dispatch n a st = (Inr a, st')"
    unfolding n using assms(1,2,3,5) r by (simp add: Let_def)
  moreover have "invoked st' = invoked st @ listeners_of st" using v unfolding x by simp
  moreover have "currentState st' = Some s" using s' by simp
  moreover have "currentReducer st' = currentReducer st" using u' by simp
  moreover have "(listeners_of st', subscriptions st')
      = fold registry_step (concat (map body (listeners_of st)))
          (listeners_of st, subscriptions st)"
    using g' unfolding x by simp
  ultimately show ?thesis using i' k' by blast
qed

lemma consistent_reducer [simp]: "consistent (st\<lparr>currentReducer := r\<rparr>) = consistent st"
  by (simp add: consistent_def)

lemma watched_facts:
  "listeners_of watched_cells = [listener_A, listener_C]"
  "\<not> isDispatching watched_cells"
  "consistent watched_cells"
  "\<forall>l \<in> set (listeners_of watched_cells).
      quiet_listener (length (subscriptions watched_cells)) l"
proof -
  show l: "listeners_of watched_cells = [listener_A, listener_C]"
    by (simp add: listeners_of_def watched_cells_def)
  show "\<not> isDispatching watched_cells"
    by (simp add: watched_cells_def counter_cells_def)
  show "consistent watched_cells"
    unfolding consistent_def l by (simp add: watched_cells_def)
  show "\<forall>l \<in> set (listeners_of watched_cells).
          quiet_listener (length (subscriptions watched_cells)) l"
    unfolding l
    by (simp add: watched_cells_def quiet_listener_def listener_A_def listener_C_def)
qed

section \<open>Consistent cells\<close>

text \<open>
  The cells of a new store are consistent, and every store function leaves consistent
  cells consistent, however it ends.
\<close>

lemma consistent_fields [simp]:
  "consistent (st\<lparr>isDispatching := b\<rparr>) = consistent st"
  "consistent (st\<lparr>currentState := s\<rparr>) = consistent st"
  "consistent (st\<lparr>currentListeners := c\<rparr>) = consistent st"
  by (simp_all add: consistent_def)

lemma consistent_subscribe:
  fixes st :: "('s, 'p) cells"
  assumes "consistent st"
  shows "consistent (snd (subscribe x st))"
proof (cases x)
  case (Function l)
  show ?thesis
  proof (cases "isDispatching st")
    case True
    with Function assms show ?thesis by (simp add: subscribe_def)
  next
    case False
    obtain st' where "subscribe x st = (Inr (length (subscriptions st)), st')"
      and "consistent st'"
      using subscribe_quiet [OF False assms, of l] unfolding Function by blast
    then show ?thesis by simp
  qed
qed (simp_all add: subscribe_def assms)

lemma consistent_unsubscribe:
  fixes st :: "('s, 'p) cells"
  assumes "consistent st"
  shows "consistent (snd (unsubscribe k st))"
proof (cases "k < length (subscriptions st) \<and> snd (subscriptions st ! k) \<and> \<not> isDispatching st")
  case False
  with assms show ?thesis by (simp add: unsubscribe_noop)
next
  case True
  then have "\<not> isDispatching st" and "k < length (subscriptions st)" by simp_all
  from unsubscribe_quiet [OF this(1) assms this(2)] show ?thesis by auto
qed

lemma consistent_run_cmds_step:
  fixes st :: "('s, 'p) cells"
  assumes D: "\<And>v (st :: ('s, 'p) cells). consistent st \<Longrightarrow> consistent (snd (dispatch n v st))"
    and "consistent st"
  shows "consistent (snd (run_cmds n cs st))"
  using assms(2)
proof (induction cs arbitrary: st)
  case Nil
  then show ?case by simp
next
  case (Cons c cs)
  define step where "step =
    (case c of
       CallDispatch v \<Rightarrow>
         (case dispatch n v st of
            (Inl e, st1) \<Rightarrow> (Inl e, st1)
          | (Inr a, st1) \<Rightarrow> (Inr (), st1))
     | CallGetState \<Rightarrow>
         (case getState st of
            (Inl e, st1) \<Rightarrow> (Inl e, st1)
          | (Inr s, st1) \<Rightarrow> (Inr (), st1))
     | CallSubscribe l \<Rightarrow>
         (case subscribe (Function l :: (unit, 'p listener) arg) st of
            (Inl e, st1) \<Rightarrow> (Inl e, st1)
          | (Inr k, st1) \<Rightarrow> (Inr (), st1))
     | CallUnsubscribe k \<Rightarrow> unsubscribe k st
     | ThrowError msg \<Rightarrow> (Inl (Thrown msg), st))"
  have g: "consistent (snd step)"
  proof (cases c)
    case (CallDispatch v)
    have "snd step = snd (dispatch n v st)"
      by (simp add: step_def CallDispatch split: prod.splits sum.splits)
    with D [OF Cons.prems] show ?thesis by simp
  next
    case CallGetState
    with Cons.prems show ?thesis by (simp add: step_def getState_def)
  next
    case (CallSubscribe l)
    have "snd step = snd (subscribe (Function l :: (unit, 'p listener) arg) st)"
      by (simp add: step_def CallSubscribe split: prod.splits sum.splits)
    with consistent_subscribe [OF Cons.prems] show ?thesis by simp
  next
    case (CallUnsubscribe k)
    with consistent_unsubscribe [OF Cons.prems] show ?thesis by (simp add: step_def)
  next
    case (ThrowError msg)
    with Cons.prems show ?thesis by (simp add: step_def)
  qed
  have unfold: "run_cmds n (c # cs) st =
      (case step of (Inl e, st1) \<Rightarrow> (Inl e, st1) | (Inr u, st1) \<Rightarrow> run_cmds n cs st1)"
    by (simp add: step_def)
  obtain r st1 where s: "step = (r, st1)" by (cases step)
  show ?case
  proof (cases r)
    case (Inl e)
    with s g show ?thesis unfolding unfold by simp
  next
    case (Inr u)
    with s have "snd (run_cmds n (c # cs) st) = snd (run_cmds n cs st1)"
      unfolding unfold by simp
    with g s Cons.IH [of st1] show ?thesis by simp
  qed
qed

lemma consistent_notify_step:
  fixes st :: "('s, 'p) cells"
  assumes R: "\<And>cs (st :: ('s, 'p) cells). consistent st \<Longrightarrow> consistent (snd (run_cmds n cs st))"
    and N: "\<And>p i (st :: ('s, 'p) cells). consistent st \<Longrightarrow> consistent (snd (notify n p i st))"
    and "consistent st"
  shows "consistent (snd (notify (Suc n) p i st))"
proof (cases "i < length (arrays st ! p)")
  case False
  with assms(3) show ?thesis by simp
next
  case True
  let ?l = "arrays st ! p ! i"
  let ?sta = "st\<lparr>invoked := invoked st @ [?l]\<rparr>"
  obtain r st1 where r: "run_cmds n (body ?l) ?sta = (r, st1)"
    by (cases "run_cmds n (body ?l) ?sta")
  have g1: "consistent st1" using R [of ?sta "body ?l"] assms(3) r by simp
  show ?thesis
  proof (cases r)
    case (Inl e)
    with True r g1 show ?thesis by (simp add: Let_def)
  next
    case (Inr u)
    with True r have "snd (notify (Suc n) p i st) = snd (notify n p (Suc i) st1)"
      by (simp add: Let_def)
    with N [OF g1, of p "Suc i"] show ?thesis by simp
  qed
qed

lemma consistent_dispatch_step:
  fixes st :: "('s, 'p) cells"
  assumes R: "\<And>cs (st :: ('s, 'p) cells). consistent st \<Longrightarrow> consistent (snd (run_cmds n cs st))"
    and N: "\<And>p i (st :: ('s, 'p) cells). consistent st \<Longrightarrow> consistent (snd (notify n p i st))"
    and "consistent st"
  shows "consistent (snd (dispatch (Suc n) v st))"
proof (cases "isPlainObject v \<and> atype v \<noteq> None \<and> \<not> isDispatching st")
  case False
  with assms(3) show ?thesis by auto
next
  case True
  then have a: "isPlainObject v" "atype v \<noteq> None" "\<not> isDispatching st" by simp_all
  obtain cs fin where o: "currentReducer st (currentState st) v = Outcome cs fin"
    by (cases "currentReducer st (currentState st) v")
  let ?sta = "st\<lparr>isDispatching := True\<rparr>"
  obtain r st1 where r: "run_cmds n cs ?sta = (r, st1)" by (cases "run_cmds n cs ?sta")
  have g1: "consistent st1" using R [of ?sta cs] assms(3) r by simp
  show ?thesis
  proof (cases r)
    case (Inl e)
    with o r g1 show ?thesis by (simp add: a)
  next
    case u: (Inr u)
    show ?thesis
    proof (cases fin)
      case (Inl msg)
      with o r u g1 show ?thesis by (simp add: a)
    next
      case (Inr s)
      let ?st2 = "st1\<lparr>currentState := Some s, isDispatching := False\<rparr>"
      let ?st3 = "?st2\<lparr>currentListeners := Some (nextListeners ?st2)\<rparr>"
      obtain r' st4 where n4: "notify n (nextListeners ?st2) 0 ?st3 = (r', st4)"
        by (cases "notify n (nextListeners ?st2) 0 ?st3")
      have "consistent ?st3" using g1 by simp
      with N [of ?st3 "nextListeners ?st2" 0] n4 have g4: "consistent st4" by simp
      have "snd (dispatch (Suc n) v st) = st4"
        using o r u Inr n4 by (cases r') (simp_all add: a Let_def)
      with g4 show ?thesis by simp
    qed
  qed
qed

lemma consistent_all:
  "(\<forall>v (st :: ('s, 'p) cells). consistent st \<longrightarrow> consistent (snd (dispatch n v st))) \<and>
   (\<forall>p i (st :: ('s, 'p) cells). consistent st \<longrightarrow> consistent (snd (notify n p i st))) \<and>
   (\<forall>cs (st :: ('s, 'p) cells). consistent st \<longrightarrow> consistent (snd (run_cmds n cs st)))"
proof (induction n)
  case 0
  have d: "consistent st \<Longrightarrow> consistent (snd (dispatch 0 v st))"
    for v and st :: "('s, 'p) cells" by simp
  have "consistent st \<Longrightarrow> consistent (snd (notify 0 p i st))"
    for p i and st :: "('s, 'p) cells" by simp
  with d consistent_run_cmds_step [of 0] show ?case by blast
next
  case (Suc n)
  then have d: "consistent st \<Longrightarrow> consistent (snd (dispatch (Suc n) v st))"
    for v and st :: "('s, 'p) cells"
    using consistent_dispatch_step by blast
  from Suc have "consistent st \<Longrightarrow> consistent (snd (notify (Suc n) p i st))"
    for p i and st :: "('s, 'p) cells"
    using consistent_notify_step by blast
  with d consistent_run_cmds_step [of "Suc n"] show ?case by blast
qed

lemma consistent_dispatch: "consistent st \<Longrightarrow> consistent (snd (dispatch n v st))"
  using consistent_all [of n] by blast

lemma consistent_replaceReducer:
  "consistent st \<Longrightarrow> consistent (snd (replaceReducer ats n r st))"
proof (cases r)
  case (Function f)
  assume "consistent st"
  then have c: "consistent (snd (dispatch n (PlainObject (Some (REPLACE ats)) [])
                (st\<lparr>currentReducer := f\<rparr>)))"
    by (intro consistent_dispatch) simp
  obtain q st1 where d: "dispatch n (PlainObject (Some (REPLACE ats)) [])
                (st\<lparr>currentReducer := f\<rparr>) = (q, st1)"
    by (cases "dispatch n (PlainObject (Some (REPLACE ats)) []) (st\<lparr>currentReducer := f\<rparr>)")
  with c Function show ?thesis
    by (cases q) (simp_all add: replaceReducer_def)
qed (simp_all add: replaceReducer_def)

lemma consistent_createStore_base:
  "createStore_base ats n r p = Inr (store, st) \<Longrightarrow> consistent st"
proof (cases r)
  case (Function f)
  let ?st0 = "\<lparr>currentReducer = f, currentState = p, currentListeners = Some 0,
               nextListeners = 0, isDispatching = False, arrays = [[]], subscriptions = [],
               invoked = []\<rparr>"
  assume c: "createStore_base ats n r p = Inr (store, st)"
  have "consistent ?st0" by (simp add: consistent_def listeners_of_def)
  then have k: "consistent (snd (dispatch n (PlainObject (Some (INIT ats)) []) ?st0))"
    by (rule consistent_dispatch)
  obtain q st1 where d: "dispatch n (PlainObject (Some (INIT ats)) []) ?st0 = (q, st1)"
    by (cases "dispatch n (PlainObject (Some (INIT ats)) []) ?st0")
  with c k Function show ?thesis
    by (cases q) (simp_all add: createStore_base_def)
qed (simp_all add: createStore_base_def)

section \<open>The state after a dispatch\<close>

text \<open>
  C1, as amended. A valid action \<open>a\<close> dispatched on an idle store in state \<open>s\<close> whose
  reducer, called on \<open>s\<close> and \<open>a\<close>, makes no store call and returns a state, and whose
  registered listeners only read the state, subscribe and unsubscribe: given a stack budget
  of two more than there are listeners, \<^verbatim>\<open>dispatch\<close> returns \<open>a\<close> and a following
  \<^verbatim>\<open>getState()\<close> returns the state the reducer returned. The state type is a parameter
  of the store, which can make no state of its own: what \<^verbatim>\<open>getState()\<close> returns is the
  value the reducer returned, the previous state itself when the reducer returned that.
\<close>

theorem dispatch_stores_reducer_result:
  fixes st :: "('s, 'p) cells"
  assumes "isPlainObject a" and "atype a \<noteq> None" and "\<not> isDispatching st"
    and "consistent st"
    and "currentReducer st (currentState st) a = Outcome [] (Inr s)"
    and "\<forall>l \<in> set (listeners_of st). quiet_listener (length (subscriptions st)) l"
    and "length (listeners_of st) + 2 \<le> n"
  shows "\<exists>st'. dispatch n a st = (Inr a, st') \<and> getState st' = (Inr (Some s), st')"
proof -
  from dispatch_quiet [OF assms]
  obtain st' where "dispatch n a st = (Inr a, st')" and "currentState st' = Some s"
    and "\<not> isDispatching st'" by blast
  then show ?thesis by (simp add: getState_def)
qed

theorem dispatch_stores_reducer_result_witness:
  "isPlainObject (act ''inc'') \<and> atype (act ''inc'') \<noteq> None \<and>
   \<not> isDispatching watched_cells \<and> consistent watched_cells \<and>
   currentReducer watched_cells (currentState watched_cells) (act ''inc'')
     = Outcome [] (Inr 1) \<and>
   list_all (quiet_listener (length (subscriptions watched_cells)))
     (listeners_of watched_cells) \<and>
   length (listeners_of watched_cells) + 2 \<le> 4 \<and>
   fst (dispatch 4 (act ''inc'') watched_cells) = Inr (act ''inc'') \<and>
   fst (getState (snd (dispatch 4 (act ''inc'') watched_cells))) = Inr (Some 1)"
proof -
  have l: "listeners_of watched_cells = [listener_A, listener_C]"
    by (simp add: listeners_of_def watched_cells_def)
  have h1: "isPlainObject (act ''inc'')" and h2: "atype (act ''inc'') \<noteq> None"
    by (simp_all add: act_def)
  have h3: "\<not> isDispatching watched_cells"
    by (simp add: watched_cells_def counter_cells_def)
  have h4: "consistent watched_cells"
    unfolding consistent_def l by (simp add: watched_cells_def)
  have h5: "currentReducer watched_cells (currentState watched_cells) (act ''inc'')
              = Outcome [] (Inr 1)"
    by (simp add: watched_cells_def counter_cells_def counter_def act_def)
  have h6: "\<forall>l \<in> set (listeners_of watched_cells).
              quiet_listener (length (subscriptions watched_cells)) l"
    unfolding l
    by (simp add: watched_cells_def quiet_listener_def listener_A_def listener_C_def)
  have h7: "length (listeners_of watched_cells) + 2 \<le> 4" unfolding l by simp
  from dispatch_stores_reducer_result [OF h1 h2 h3 h4 h5 h6 h7]
  obtain st' where d: "dispatch 4 (act ''inc'') watched_cells = (Inr (act ''inc''), st')"
    and g: "getState st' = (Inr (Some 1), st')" by blast
  from d g have "fst (dispatch 4 (act ''inc'') watched_cells) = Inr (act ''inc'')"
    and "fst (getState (snd (dispatch 4 (act ''inc'') watched_cells))) = Inr (Some 1)"
    by simp_all
  with h1 h2 h3 h4 h5 h6 h7 show ?thesis by (simp add: list_all_iff)
qed

text \<open>
  Without the condition on the listeners the claim fails: a listener that unsubscribes
  itself and dispatches \<^verbatim>\<open>inc\<close>. After \<^verbatim>\<open>dispatch(inc)\<close> on state 0 the state is 2,
  and the reducer maps 0 and \<^verbatim>\<open>inc\<close> to 1.
\<close>

theorem dispatch_stores_reducer_result_counterexample:
  "isPlainObject (act ''inc'') \<and> atype (act ''inc'') \<noteq> None \<and>
   \<not> isDispatching chatty_cells \<and> consistent chatty_cells \<and>
   currentState chatty_cells = Some 0 \<and> currentReducer chatty_cells = counter \<and>
   counter (Some 0) (act ''inc'') = Outcome [] (Inr 1) \<and>
   fst (dispatch 5 (act ''inc'') chatty_cells) = Inr (act ''inc'') \<and>
   fst (getState (snd (dispatch 5 (act ''inc'') chatty_cells))) = Inr (Some 2) \<and>
   fst (getState (snd (dispatch 5 (act ''inc'') chatty_cells))) \<noteq> Inr (Some 1)"
proof -
  have "fst (dispatch 5 (act ''inc'') chatty_cells) = Inr (act ''inc'')" by code_simp
  moreover have g: "fst (getState (snd (dispatch 5 (act ''inc'') chatty_cells))) = Inr (Some 2)"
    by code_simp
  moreover have "consistent chatty_cells"
    by (simp add: consistent_def listeners_of_def chatty_cells_def)
  moreover have "counter (Some 0) (act ''inc'') = Outcome [] (Inr 1)"
    by (simp add: counter_def act_def)
  ultimately show ?thesis
    by (simp add: act_def chatty_cells_def counter_cells_def)
qed

text \<open>
  C7, as amended. On an idle store whose registered listeners only read the state,
  subscribe and unsubscribe, \<^verbatim>\<open>replaceReducer(R2)\<close> for a reducer that makes no store
  call and returns a state on the prior state and the synthetic replace action: the call
  returns, a following \<^verbatim>\<open>getState()\<close> returns that state, the reducer of the store is
  \<open>R2\<close> and remains \<open>R2\<close> through every later dispatch, and a later dispatch of a valid
  action (its listeners again quiet) leaves the state \<open>R2\<close> returns for it.
\<close>

theorem replaceReducer_installs_reducer:
  fixes st :: "('s, 'p) cells"
  assumes "\<not> isDispatching st" and "consistent st"
    and "R2 (currentState st) (PlainObject (Some (REPLACE ats)) []) = Outcome [] (Inr s)"
    and "\<forall>l \<in> set (listeners_of st). quiet_listener (length (subscriptions st)) l"
    and "length (listeners_of st) + 2 \<le> n"
  shows "\<exists>st'. replaceReducer ats n (Function R2) st = (Inr (), st') \<and>
           getState st' = (Inr (Some s), st') \<and> currentReducer st' = R2 \<and>
           (\<forall>m b. currentReducer (snd (dispatch m b st')) = R2) \<and>
           (\<forall>m b s2. isPlainObject b \<and> atype b \<noteq> None \<and>
               R2 (Some s) b = Outcome [] (Inr s2) \<and>
               (\<forall>l \<in> set (listeners_of st'). quiet_listener (length (subscriptions st')) l) \<and>
               length (listeners_of st') + 2 \<le> m \<longrightarrow>
               (\<exists>st''. dispatch m b st' = (Inr b, st'') \<and>
                  getState st'' = (Inr (Some s2), st'')))"
proof -
  let ?a = "PlainObject (Some (REPLACE ats)) [] :: 'p jsval"
  let ?st0 = "st\<lparr>currentReducer := R2\<rparr>"
  have a1: "isPlainObject ?a" and a2: "atype ?a \<noteq> None" by simp_all
  have i0: "\<not> isDispatching ?st0" using assms(1) by simp
  have c0: "consistent ?st0" using assms(2) by simp
  have r0: "currentReducer ?st0 (currentState ?st0) ?a = Outcome [] (Inr s)"
    using assms(3) by simp
  have q0: "\<forall>l \<in> set (listeners_of ?st0). quiet_listener (length (subscriptions ?st0)) l"
    using assms(4) by simp
  have n0: "length (listeners_of ?st0) + 2 \<le> n" using assms(5) by simp
  from dispatch_quiet [OF a1 a2 i0 c0 r0 q0 n0]
  obtain st' where d: "dispatch n ?a ?st0 = (Inr ?a, st')"
    and s': "currentState st' = Some s" and u': "currentReducer st' = R2"
    and i': "\<not> isDispatching st'" and k': "consistent st'"
    by auto
  have 1: "replaceReducer ats n (Function R2) st = (Inr (), st')"
    using d by (simp add: replaceReducer_def)
  have 2: "getState st' = (Inr (Some s), st')" using s' i' by (simp add: getState_def)
  have 3: "currentReducer (snd (dispatch m b st')) = R2" for m b
    using grows_dispatch [of st' m b] u' by (simp add: grows_def)
  have 4: "\<exists>st''. dispatch m b st' = (Inr b, st'') \<and> getState st'' = (Inr (Some s2), st'')"
    if "isPlainObject b" and "atype b \<noteq> None" and "R2 (Some s) b = Outcome [] (Inr s2)"
      and "\<forall>l \<in> set (listeners_of st'). quiet_listener (length (subscriptions st')) l"
      and "length (listeners_of st') + 2 \<le> m" for m b s2
  proof -
    from that(3) have "currentReducer st' (currentState st') b = Outcome [] (Inr s2)"
      by (simp add: s' u')
    from dispatch_quiet [OF that(1,2) i' k' this that(4,5)]
    obtain st'' where "dispatch m b st' = (Inr b, st'')" and "currentState st'' = Some s2"
      and "\<not> isDispatching st''" by blast
    then show ?thesis by (simp add: getState_def)
  qed
  from 1 2 3 4 u' show ?thesis by blast
qed

theorem replaceReducer_installs_reducer_witness:
  "\<not> isDispatching watched_cells \<and> consistent watched_cells \<and>
   countdown (currentState watched_cells)
     (PlainObject (Some (REPLACE (ActionTypes ''a.b'' ''c.d''))) []) = Outcome [] (Inr 0) \<and>
   list_all (quiet_listener (length (subscriptions watched_cells)))
     (listeners_of watched_cells) \<and>
   length (listeners_of watched_cells) + 2 \<le> 4 \<and>
   fst (replaceReducer (ActionTypes ''a.b'' ''c.d'') 4
         (Function countdown :: (unit, (int, unit) reducer) arg) watched_cells) = Inr () \<and>
   fst (getState (snd (replaceReducer (ActionTypes ''a.b'' ''c.d'') 4
         (Function countdown :: (unit, (int, unit) reducer) arg) watched_cells))) = Inr (Some 0) \<and>
   fst (getState (snd (dispatch 4 (act ''inc'')
         (snd (replaceReducer (ActionTypes ''a.b'' ''c.d'') 4
           (Function countdown :: (unit, (int, unit) reducer) arg) watched_cells)))))
     = Inr (Some (- 1))"
proof -
  let ?ats = "ActionTypes ''a.b'' ''c.d''"
  let ?r = "replaceReducer ?ats 4 (Function countdown :: (unit, (int, unit) reducer) arg)
              watched_cells"
  have h3: "countdown (currentState watched_cells) (PlainObject (Some (REPLACE ?ats)) [])
              = Outcome [] (Inr 0)"
    by (simp add: countdown_def watched_cells_def counter_cells_def ActionTypes_def)
  have h5: "length (listeners_of watched_cells) + 2 \<le> 4" by (simp add: watched_facts(1))
  from replaceReducer_installs_reducer [where ?R2.0 = countdown and st = watched_cells
      and ats = ?ats and s = 0 and n = 4, OF watched_facts(2,3) h3 watched_facts(4) h5]
  obtain st' where r: "?r = (Inr (), st')" and g: "getState st' = (Inr (Some 0), st')"
    by blast
  have "fst (getState (snd (dispatch 4 (act ''inc'') (snd ?r)))) = Inr (Some (- 1))"
    by code_simp
  with r g h3 h5 watched_facts(2,3,4) show ?thesis by (simp add: list_all_iff)
qed

text \<open>
  Without the condition on the listeners the claim fails: with the listener that
  unsubscribes itself and dispatches \<^verbatim>\<open>inc\<close>, the state after \<^verbatim>\<open>replaceReducer\<close> is
  \<open>-1\<close>, and \<open>R2\<close> maps the prior state 0 and the replace action to 0.
\<close>

theorem replaceReducer_installs_reducer_counterexample:
  "\<not> isDispatching chatty_cells \<and> consistent chatty_cells \<and>
   currentState chatty_cells = Some 0 \<and>
   countdown (Some 0) (PlainObject (Some (REPLACE (ActionTypes ''a.b'' ''c.d''))) [])
     = Outcome [] (Inr 0) \<and>
   fst (replaceReducer (ActionTypes ''a.b'' ''c.d'') 5
         (Function countdown :: (unit, (int, unit) reducer) arg) chatty_cells) = Inr () \<and>
   fst (getState (snd (replaceReducer (ActionTypes ''a.b'' ''c.d'') 5
         (Function countdown :: (unit, (int, unit) reducer) arg) chatty_cells)))
     = Inr (Some (- 1)) \<and>
   fst (getState (snd (replaceReducer (ActionTypes ''a.b'' ''c.d'') 5
         (Function countdown :: (unit, (int, unit) reducer) arg) chatty_cells)))
     \<noteq> Inr (Some 0)"
proof -
  let ?r = "replaceReducer (ActionTypes ''a.b'' ''c.d'') 5
              (Function countdown :: (unit, (int, unit) reducer) arg) chatty_cells"
  have "fst ?r = Inr ()" by code_simp
  moreover have "fst (getState (snd ?r)) = Inr (Some (- 1))" by code_simp
  moreover have "consistent chatty_cells"
    by (simp add: consistent_def listeners_of_def chatty_cells_def)
  moreover have "countdown (Some 0) (PlainObject (Some (REPLACE (ActionTypes ''a.b'' ''c.d''))) [])
     = Outcome [] (Inr 0)"
    by (simp add: countdown_def ActionTypes_def)
  ultimately show ?thesis by (simp add: chatty_cells_def counter_cells_def)
qed

section \<open>The listeners a dispatch calls\<close>

text \<open>
  C10. A valid action dispatched on an idle store whose reducer returns a state \<open>s\<close>, any
  state: it may be the previous one, and no comparison of states is made. The dispatch
  stores \<open>s\<close> and is then the call, one after the other, of the listeners registered when
  it began, each run in the cells the one before left; it fails with the error of the
  first listener that fails, and returns the action otherwise. When it returns, every one
  of these listeners has been called: they occur, in their order, in the record of
  listener calls the dispatch added (listeners that dispatch add calls of their own).
\<close>

theorem every_snapshot_listener_called:
  fixes st :: "('s, 'p) cells"
  assumes "isPlainObject a" and "atype a \<noteq> None" and "\<not> isDispatching st"
    and "nextListeners st < length (arrays st)"
    and "currentReducer st (currentState st) a = Outcome cs (Inr s)"
    and "fst (run_cmds n cs (st\<lparr>isDispatching := True\<rparr>)) = Inr ()"
  shows "dispatch (Suc n) a st =
           (case notify_snapshot n (listeners_of st)
                   (st\<lparr>currentState := Some s, isDispatching := False,
                        currentListeners := Some (nextListeners st)\<rparr>) of
              (Inl e, st') \<Rightarrow> (Inl e, st')
            | (Inr u, st') \<Rightarrow> (Inr a, st')) \<and>
         (\<forall>r st'. dispatch (Suc n) a st = (Inr r, st') \<longrightarrow>
            notify_snapshot n (listeners_of st)
              (st\<lparr>currentState := Some s, isDispatching := False,
                   currentListeners := Some (nextListeners st)\<rparr>) = (Inr (), st') \<and>
            (\<exists>ev. invoked st' = invoked st @ ev \<and> subseq (listeners_of st) ev))"
proof -
  let ?st3 = "st\<lparr>currentState := Some s, isDispatching := False,
                  currentListeners := Some (nextListeners st)\<rparr>"
  note eq = dispatch_is_snapshot [OF assms]
  have f3: "frozen ?st3 (nextListeners st)" using assms(4) by (simp add: frozen_def)
  have "notify_snapshot n (listeners_of st) ?st3 = (Inr (), st') \<and>
        (\<exists>ev. invoked st' = invoked st @ ev \<and> subseq (listeners_of st) ev)"
    if d: "dispatch (Suc n) a st = (Inr r, st')" for r st'
  proof -
    obtain q st4 where q: "notify_snapshot n (listeners_of st) ?st3 = (q, st4)"
      by (cases "notify_snapshot n (listeners_of st) ?st3")
    from d q have 1: "notify_snapshot n (listeners_of st) ?st3 = (Inr (), st')"
      unfolding eq by (cases q) simp_all
    have "notify n (nextListeners st) 0 ?st3 = notify_snapshot n (listeners_of st) ?st3"
      using notify_is_snapshot [OF f3, of n 0] by (simp add: listeners_of_def)
    with 1 have "notify n (nextListeners st) 0 ?st3 = (Inr (), st')" by simp
    from notify_invokes [OF f3 this]
    have "\<exists>ev. invoked st' = invoked st @ ev \<and> subseq (listeners_of st) ev"
      by (simp add: listeners_of_def)
    with 1 show ?thesis by simp
  qed
  with eq show ?thesis by blast
qed

theorem every_snapshot_listener_called_witness:
  "isPlainObject (act ''noop'') \<and> atype (act ''noop'') \<noteq> None \<and>
   \<not> isDispatching watched_cells \<and>
   nextListeners watched_cells < length (arrays watched_cells) \<and>
   currentReducer watched_cells (currentState watched_cells) (act ''noop'')
     = Outcome [] (Inr 0) \<and>
   fst (run_cmds 3 [] (watched_cells\<lparr>isDispatching := True\<rparr>)) = Inr () \<and>
   currentState watched_cells = Some 0 \<and>
   listeners_of watched_cells = [listener_A, listener_C] \<and>
   dispatch (Suc 3) (act ''noop'') watched_cells
     = (Inr (act ''noop''), snd (dispatch (Suc 3) (act ''noop'') watched_cells)) \<and>
   notify_snapshot 3 [listener_A, listener_C]
       (watched_cells\<lparr>currentState := Some 0, isDispatching := False,
          currentListeners := Some (nextListeners watched_cells)\<rparr>)
     = (Inr (), snd (dispatch (Suc 3) (act ''noop'') watched_cells)) \<and>
   invoked (snd (dispatch (Suc 3) (act ''noop'') watched_cells)) = [listener_A, listener_C] \<and>
   listeners_of (snd (dispatch (Suc 3) (act ''noop'') watched_cells))
     = [listener_A, listener_B]"
proof -
  let ?d = "dispatch (Suc 3) (act ''noop'') watched_cells"
  have h1: "isPlainObject (act ''noop'')" and h2: "atype (act ''noop'') \<noteq> None"
    by (simp_all add: act_def)
  have h5: "currentReducer watched_cells (currentState watched_cells) (act ''noop'')
              = Outcome [] (Inr 0)"
    by (simp add: watched_cells_def counter_cells_def counter_def act_def)
  have h6: "fst (run_cmds 3 [] (watched_cells\<lparr>isDispatching := True\<rparr>)) = Inr ()"
    by simp
  have h4: "nextListeners watched_cells < length (arrays watched_cells)"
    by (simp add: watched_cells_def)
  have "fst ?d = Inr (act ''noop'')" by code_simp
  then have d: "?d = (Inr (act ''noop''), snd ?d)" by (metis prod.collapse)
  from every_snapshot_listener_called [OF h1 h2 watched_facts(2) h4 h5 h6] d
  have s: "notify_snapshot 3 (listeners_of watched_cells)
             (watched_cells\<lparr>currentState := Some 0, isDispatching := False,
                currentListeners := Some (nextListeners watched_cells)\<rparr>) = (Inr (), snd ?d)"
    by blast
  have i: "invoked (snd ?d) = [listener_A, listener_C]" by code_simp
  have l: "listeners_of (snd ?d) = [listener_A, listener_B]" by code_simp
  have c: "currentState watched_cells = Some 0"
    by (simp add: watched_cells_def counter_cells_def)
  from s have s': "notify_snapshot 3 [listener_A, listener_C]
             (watched_cells\<lparr>currentState := Some 0, isDispatching := False,
                currentListeners := Some (nextListeners watched_cells)\<rparr>) = (Inr (), snd ?d)"
    by (simp only: watched_facts(1))
  show ?thesis
    using h1 h2 watched_facts(1,2) h4 h5 h6 c d s' i l by blast
qed

text \<open>
  C2, as amended. A dispatch that returns normally, on consistent cells (those of every
  store, see section "Consistent cells"), whatever its listeners do when they are called:
  it has called the listeners registered when it began, in their order, each run in the
  cells the one before left, and these calls are in its record of listener calls, in
  their order. On an idle store (a listener is called on one) \<^verbatim>\<open>subscribe\<close> returns and
  appends its listener to the registered ones, and an unsubscribe function that runs for
  the first time returns and removes one occurrence of its listener from them. After the
  dispatch the registered listeners are those of the subscriptions that are still active,
  and a next dispatch that returns has called exactly the listeners registered after the
  first one.
\<close>

theorem snapshot_isolation:
  fixes st :: "('s, 'p) cells"
  assumes "consistent st" and "dispatch (Suc n) a st = (Inr r, st')"
  shows "(\<exists>cs s. currentReducer st (currentState st) a = Outcome cs (Inr s) \<and>
            notify_snapshot n (listeners_of st)
              (st\<lparr>currentState := Some s, isDispatching := False,
                   currentListeners := Some (nextListeners st)\<rparr>) = (Inr (), st')) \<and>
         (\<exists>ev. invoked st' = invoked st @ ev \<and> subseq (listeners_of st) ev) \<and>
         (\<forall>(t :: ('s, 'p) cells) l. \<not> isDispatching t \<and> consistent t \<longrightarrow>
            (\<exists>t'. subscribe (Function l :: (unit, 'p listener) arg) t
                     = (Inr (length (subscriptions t)), t') \<and>
                  listeners_of t' = listeners_of t @ [l] \<and>
                  subscriptions t' = subscriptions t @ [(l, True)])) \<and>
         (\<forall>(t :: ('s, 'p) cells) k. \<not> isDispatching t \<and> consistent t \<and>
              k < length (subscriptions t) \<and> snd (subscriptions t ! k) \<longrightarrow>
            (\<exists>t'. unsubscribe k t = (Inr (), t') \<and>
                  listeners_of t' = remove1 (fst (subscriptions t ! k)) (listeners_of t) \<and>
                  subscriptions t' = (subscriptions t)[k := (fst (subscriptions t ! k), False)])) \<and>
         mset (listeners_of st') = mset (active (subscriptions st')) \<and>
         (\<forall>m b r2 st''. dispatch (Suc m) b st' = (Inr r2, st'') \<longrightarrow>
            (\<exists>cs2 s2. currentReducer st' (currentState st') b = Outcome cs2 (Inr s2) \<and>
               notify_snapshot m (listeners_of st')
                 (st'\<lparr>currentState := Some s2, isDispatching := False,
                      currentListeners := Some (nextListeners st')\<rparr>) = (Inr (), st'')))"
proof -
  have snap: "\<exists>cs s. currentReducer t (currentState t) b = Outcome cs (Inr s) \<and>
            notify_snapshot m (listeners_of t)
              (t\<lparr>currentState := Some s, isDispatching := False,
                   currentListeners := Some (nextListeners t)\<rparr>) = (Inr (), t')"
    if c: "consistent t" and d: "dispatch (Suc m) b t = (Inr q, t')"
    for t t' :: "('s, 'p) cells" and m b q
  proof -
    from dispatch_returns [OF d]
    obtain cs s where o: "currentReducer t (currentState t) b = Outcome cs (Inr s)"
      and nt: "notify m (nextListeners t) 0
                 (t\<lparr>currentState := Some s, isDispatching := False,
                     currentListeners := Some (nextListeners t)\<rparr>) = (Inr (), t')"
      by blast
    let ?t3 = "t\<lparr>currentState := Some s, isDispatching := False,
                  currentListeners := Some (nextListeners t)\<rparr>"
    from c have "frozen ?t3 (nextListeners t)" by (simp add: frozen_def consistent_def)
    from notify_is_snapshot [OF this, of m 0] nt
    have "notify_snapshot m (listeners_of t) ?t3 = (Inr (), t')"
      by (simp add: listeners_of_def)
    with o show ?thesis by blast
  qed
  have c': "consistent st'"
    using consistent_dispatch [OF assms(1), of "Suc n" a] assms(2) by simp
  have 1: "\<exists>cs s. currentReducer st (currentState st) a = Outcome cs (Inr s) \<and>
            notify_snapshot n (listeners_of st)
              (st\<lparr>currentState := Some s, isDispatching := False,
                   currentListeners := Some (nextListeners st)\<rparr>) = (Inr (), st')"
    using snap [OF assms] .
  have 0: "\<exists>ev. invoked st' = invoked st @ ev \<and> subseq (listeners_of st) ev"
  proof -
    from dispatch_returns [OF assms(2)]
    obtain s where nt: "notify n (nextListeners st) 0
                 (st\<lparr>currentState := Some s, isDispatching := False,
                     currentListeners := Some (nextListeners st)\<rparr>) = (Inr (), st')"
      by blast
    from assms(1)
    have "frozen (st\<lparr>currentState := Some s, isDispatching := False,
                     currentListeners := Some (nextListeners st)\<rparr>) (nextListeners st)"
      by (simp add: frozen_def consistent_def)
    from notify_invokes [OF this nt] show ?thesis by (simp add: listeners_of_def)
  qed
  have 2: "\<exists>t'. subscribe (Function l :: (unit, 'p listener) arg) t
                     = (Inr (length (subscriptions t)), t') \<and>
                  listeners_of t' = listeners_of t @ [l] \<and>
                  subscriptions t' = subscriptions t @ [(l, True)]"
    if "\<not> isDispatching t" and "consistent t" for t :: "('s, 'p) cells" and l
    using subscribe_quiet [OF that, of l] by blast
  have 3: "\<exists>t'. unsubscribe k t = (Inr (), t') \<and>
                  listeners_of t' = remove1 (fst (subscriptions t ! k)) (listeners_of t) \<and>
                  subscriptions t' = (subscriptions t)[k := (fst (subscriptions t ! k), False)]"
    if "\<not> isDispatching t" and "consistent t" and k: "k < length (subscriptions t)"
      and s: "snd (subscriptions t ! k)" for t :: "('s, 'p) cells" and k
  proof -
    from unsubscribe_quiet [OF that(1,2) k]
    obtain t' where u: "unsubscribe k t = (Inr (), t')"
      and g: "(listeners_of t', subscriptions t')
                = registry_step (CallUnsubscribe k) (listeners_of t, subscriptions t)"
      by blast
    from g k s have "listeners_of t' = remove1 (fst (subscriptions t ! k)) (listeners_of t)"
      and "subscriptions t' = (subscriptions t)[k := (fst (subscriptions t ! k), False)]"
      by simp_all
    with u show ?thesis by blast
  qed
  have 4: "mset (listeners_of st') = mset (active (subscriptions st'))"
    using c' by (simp add: consistent_def)
  have 5: "\<exists>cs2 s2. currentReducer st' (currentState st') b = Outcome cs2 (Inr s2) \<and>
               notify_snapshot m (listeners_of st')
                 (st'\<lparr>currentState := Some s2, isDispatching := False,
                      currentListeners := Some (nextListeners st')\<rparr>) = (Inr (), st'')"
    if "dispatch (Suc m) b st' = (Inr r2, st'')" for m b r2 st''
    using snap [OF c' that] .
  from 0 1 2 3 4 5 show ?thesis by blast
qed

text \<open>
  The watched store: listener A, when called, subscribes listener B and unsubscribes
  listener C. The first dispatch calls A and C, the second A and B.
\<close>

theorem snapshot_isolation_witness:
  "consistent watched_cells \<and>
   listeners_of watched_cells = [listener_A, listener_C] \<and>
   body listener_A = [CallSubscribe listener_B, CallUnsubscribe 1] \<and>
   dispatch (Suc 3) (act ''inc'') watched_cells
     = (Inr (act ''inc''), snd (dispatch (Suc 3) (act ''inc'') watched_cells)) \<and>
   notify_snapshot 3 [listener_A, listener_C]
       (watched_cells\<lparr>currentState := Some 1, isDispatching := False,
          currentListeners := Some (nextListeners watched_cells)\<rparr>)
     = (Inr (), snd (dispatch (Suc 3) (act ''inc'') watched_cells)) \<and>
   invoked (snd (dispatch (Suc 3) (act ''inc'') watched_cells)) = [listener_A, listener_C] \<and>
   listeners_of (snd (dispatch (Suc 3) (act ''inc'') watched_cells))
     = [listener_A, listener_B] \<and>
   subscriptions (snd (dispatch (Suc 3) (act ''inc'') watched_cells))
     = [(listener_A, True), (listener_C, False), (listener_B, True)] \<and>
   dispatch (Suc 3) (act ''inc'') (snd (dispatch (Suc 3) (act ''inc'') watched_cells))
     = (Inr (act ''inc''),
        snd (dispatch (Suc 3) (act ''inc'')
               (snd (dispatch (Suc 3) (act ''inc'') watched_cells)))) \<and>
   notify_snapshot 3 [listener_A, listener_B]
       ((snd (dispatch (Suc 3) (act ''inc'') watched_cells))
          \<lparr>currentState := Some 2, isDispatching := False,
           currentListeners :=
             Some (nextListeners (snd (dispatch (Suc 3) (act ''inc'') watched_cells)))\<rparr>)
     = (Inr (), snd (dispatch (Suc 3) (act ''inc'')
                       (snd (dispatch (Suc 3) (act ''inc'') watched_cells)))) \<and>
   invoked (snd (dispatch (Suc 3) (act ''inc'')
                   (snd (dispatch (Suc 3) (act ''inc'') watched_cells))))
     = [listener_A, listener_C, listener_A, listener_B]"
proof -
  let ?d = "dispatch (Suc 3) (act ''inc'') watched_cells"
  let ?e = "dispatch (Suc 3) (act ''inc'') (snd ?d)"
  have b: "body listener_A = [CallSubscribe listener_B, CallUnsubscribe 1]"
    by (simp add: listener_A_def listener_B_def)
  have "fst ?d = Inr (act ''inc'')" by code_simp
  then have d: "?d = (Inr (act ''inc''), snd ?d)" by (metis prod.collapse)
  have "fst ?e = Inr (act ''inc'')" by code_simp
  then have e: "?e = (Inr (act ''inc''), snd ?e)" by (metis prod.collapse)
  have o1: "currentReducer watched_cells (currentState watched_cells) (act ''inc'')
              = Outcome [] (Inr 1)"
    by (simp add: watched_cells_def counter_cells_def counter_def act_def)
  have o2: "currentReducer (snd ?d) (currentState (snd ?d)) (act ''inc'')
              = Outcome [] (Inr 2)"
    by code_simp
  note T = snapshot_isolation [OF watched_facts(3) d]
  from T o1 have s1: "notify_snapshot 3 (listeners_of watched_cells)
             (watched_cells\<lparr>currentState := Some 1, isDispatching := False,
                currentListeners := Some (nextListeners watched_cells)\<rparr>) = (Inr (), snd ?d)"
    by auto
  have l: "listeners_of (snd ?d) = [listener_A, listener_B]" by code_simp
  from T have "\<exists>cs2 s2. currentReducer (snd ?d) (currentState (snd ?d)) (act ''inc'')
                   = Outcome cs2 (Inr s2) \<and>
               notify_snapshot 3 (listeners_of (snd ?d))
                 ((snd ?d)\<lparr>currentState := Some s2, isDispatching := False,
                      currentListeners := Some (nextListeners (snd ?d))\<rparr>) = (Inr (), snd ?e)"
    using e by blast
  with o2 have s2: "notify_snapshot 3 (listeners_of (snd ?d))
                 ((snd ?d)\<lparr>currentState := Some 2, isDispatching := False,
                      currentListeners := Some (nextListeners (snd ?d))\<rparr>) = (Inr (), snd ?e)"
    by auto
  have i1: "invoked (snd ?d) = [listener_A, listener_C]" by code_simp
  have u1: "subscriptions (snd ?d)
              = [(listener_A, True), (listener_C, False), (listener_B, True)]" by code_simp
  have i2: "invoked (snd ?e) = [listener_A, listener_C, listener_A, listener_B]"
    by code_simp
  from s1 have s1': "notify_snapshot 3 [listener_A, listener_C]
             (watched_cells\<lparr>currentState := Some 1, isDispatching := False,
                currentListeners := Some (nextListeners watched_cells)\<rparr>) = (Inr (), snd ?d)"
    by (simp only: watched_facts(1))
  from s2 have s2': "notify_snapshot 3 [listener_A, listener_B]
                 ((snd ?d)\<lparr>currentState := Some 2, isDispatching := False,
                      currentListeners := Some (nextListeners (snd ?d))\<rparr>) = (Inr (), snd ?e)"
    by (simp only: l)
  show ?thesis
    using watched_facts(1,3) b d s1' i1 l u1 e s2' i2 by blast
qed

text \<open>
  The claim as it stands, for every dispatch call, fails for a dispatch that does not
  return: with a first listener that throws, the dispatch ends with that exception and the
  second listener registered when it began is not called.
\<close>

theorem snapshot_isolation_counterexample:
  "consistent throwing_cells \<and> \<not> isDispatching throwing_cells \<and>
   isPlainObject (act ''inc'') \<and> atype (act ''inc'') = Some ''inc'' \<and>
   listeners_of throwing_cells = [listener_T, listener_C] \<and>
   body listener_T = [ThrowError ''oops''] \<and>
   fst (dispatch (Suc 3) (act ''inc'') throwing_cells) = Inl (Thrown ''oops'') \<and>
   invoked (snd (dispatch (Suc 3) (act ''inc'') throwing_cells)) = [listener_T] \<and>
   [listener_T] \<noteq> [listener_T, listener_C]"
proof -
  let ?d = "dispatch (Suc 3) (act ''inc'') throwing_cells"
  have l: "listeners_of throwing_cells = [listener_T, listener_C]"
    by (simp add: listeners_of_def throwing_cells_def)
  have c: "consistent throwing_cells"
    unfolding consistent_def l by (simp add: throwing_cells_def)
  have i: "\<not> isDispatching throwing_cells"
    by (simp add: throwing_cells_def counter_cells_def)
  have a: "isPlainObject (act ''inc'')" "atype (act ''inc'') = Some ''inc''"
    by (simp_all add: act_def)
  have b: "body listener_T = [ThrowError ''oops'']" by (simp add: listener_T_def)
  have r: "fst ?d = Inl (Thrown ''oops'')" by code_simp
  have v: "invoked (snd ?d) = [listener_T]" by code_simp
  from c i a l b r v show ?thesis by simp
qed

end
